theory Spec2Isabelle
  imports Main "HOL-Library.Sublist"
begin

section \<open>The wind watcher: data model\<close>

text \<open>
  The watcher of \<^verbatim>\<open>main.go\<close> polls the file tree under the working directory, keeps the
  last modification time it saw for every watched file, and rebuilds and restarts the
  application when a watched file advances. A \<^verbatim>\<open>time.Time\<close> is modelled by the instant it
  denotes (an integer count of nanoseconds), a \<^verbatim>\<open>time.Duration\<close> by an integer as well,
  and a process handle by its process identifier.
\<close>

type_synonym time = int
type_synonym duration = int
type_synonym pid = nat

record WindConfig =
  BuildCmd :: string
  RunCmd :: string
  ExcludeDirs :: "string list"
  IncludeExts :: "string list"
  PollInterval :: duration
  DebounceDelay :: duration

record WindApp =
  config :: WindConfig
  process :: "pid option"
  building :: bool
  fileStates :: "string \<rightharpoonup> time"

subsection \<open>The standard library functions the scan uses\<close>

text \<open>
  \<^verbatim>\<open>strings.Contains(s, substr)\<close>: \<open>substr\<close> occurs in \<open>s\<close> at some position.
\<close>

fun Contains :: "string \<Rightarrow> string \<Rightarrow> bool" where
  "Contains [] substr = (substr = [])"
| "Contains (c # s) substr = (prefix substr (c # s) \<or> Contains s substr)"

text \<open>
  \<^verbatim>\<open>filepath.Ext(path)\<close> scans backwards from the end of the path, stops at a path
  separator, and returns the suffix that starts at the first dot it meets; the empty
  string when there is none. \<open>extScan\<close> is that loop over the reversed path, with the
  characters already passed in \<open>acc\<close>.
\<close>

fun extScan :: "string \<Rightarrow> string \<Rightarrow> string" where
  "extScan [] acc = []"
| "extScan (c # r) acc =
     (if c = CHR ''/'' then []
      else if c = CHR ''.'' then c # acc
      else extScan r (c # acc))"

definition Ext :: "string \<Rightarrow> string" where
  "Ext path = extScan (rev path) []"

text \<open>
  \<^verbatim>\<open>filepath.Join(path, name)\<close> as \<^verbatim>\<open>filepath.Walk\<close> uses it: the walk starts at
  \<^verbatim>\<open>"."\<close>, and joining \<^verbatim>\<open>"."\<close> with a name cleans to the bare name.
\<close>

definition Join :: "string \<Rightarrow> string \<Rightarrow> string" where
  "Join path name = (if path = ''.'' then name else path @ ''/'' @ name)"

subsection \<open>The file tree and \<^verbatim>\<open>filepath.Walk\<close>\<close>

text \<open>
  A node of the tree is a non-directory entry with its modification time, a directory
  with its entries in the lexical order in which \<^verbatim>\<open>Walk\<close> reads them, an entry whose
  \<^verbatim>\<open>Lstat\<close> fails, or a directory whose listing cannot be read.
\<close>

datatype node =
    File string time
  | Dir string time "node list"
  | NoStat string
  | NoRead string time

fun name :: "node \<Rightarrow> string" where
  "name (File n _) = n"
| "name (Dir n _ _) = n"
| "name (NoStat n) = n"
| "name (NoRead n _) = n"

fun isDir :: "node \<Rightarrow> bool" where
  "isDir (Dir _ _ _) = True"
| "isDir (NoRead _ _) = True"
| "isDir _ = False"

record FileInfo =
  IsDir :: bool
  ModTime :: time

datatype walkErr = LstatFailed | ReadDirFailed

text \<open>What a \<^verbatim>\<open>WalkFunc\<close> returns: \<^verbatim>\<open>nil\<close>, \<^verbatim>\<open>filepath.SkipDir\<close>, or an error.\<close>

datatype ret = OK | SkipDir | Err walkErr

text \<open>
  What a \<^verbatim>\<open>WalkFunc\<close> is called with besides the path: the entry's \<^verbatim>\<open>FileInfo\<close> and a
  \<^verbatim>\<open>nil\<close> error, or an error (with the \<^verbatim>\<open>FileInfo\<close> when there is one).
\<close>

datatype visit = Entry FileInfo | Failure "FileInfo option" walkErr

type_synonym 's WalkFunc = "string \<Rightarrow> visit \<Rightarrow> 's \<Rightarrow> ret \<times> 's"

text \<open>
  \<open>walk\<close> is the recursive \<^verbatim>\<open>walk\<close> of \<^verbatim>\<open>path/filepath\<close>, \<open>walkNames\<close> its loop over the
  names of a directory: a non-directory is handed to the function; a directory is
  handed to the function first and entered only when the function returned \<^verbatim>\<open>nil\<close>
  and the listing could be read; \<^verbatim>\<open>SkipDir\<close> returned for a directory skips that
  directory only, returned for a non-directory it skips the rest of the containing
  directory; any other error stops the walk.
\<close>

fun walk :: "'s WalkFunc \<Rightarrow> string \<Rightarrow> node \<Rightarrow> 's \<Rightarrow> ret \<times> 's"
and walkNames :: "'s WalkFunc \<Rightarrow> string \<Rightarrow> node list \<Rightarrow> 's \<Rightarrow> ret \<times> 's" where
  "walk fn path (File n mt) s = fn path (Entry \<lparr>IsDir = False, ModTime = mt\<rparr>) s"
| "walk fn path (NoRead n mt) s =
     fn path (Failure (Some \<lparr>IsDir = True, ModTime = mt\<rparr>) ReadDirFailed) s"
| "walk fn path (NoStat n) s = fn path (Failure None LstatFailed) s"
| "walk fn path (Dir n mt kids) s =
     (case fn path (Entry \<lparr>IsDir = True, ModTime = mt\<rparr>) s of
        (OK, s') \<Rightarrow> walkNames fn path kids s'
      | (r, s') \<Rightarrow> (r, s'))"
| "walkNames fn path [] s = (OK, s)"
| "walkNames fn path (k # ks) s =
     (case k of
        NoStat n \<Rightarrow>
          (case fn (Join path n) (Failure None LstatFailed) s of
             (Err e, s') \<Rightarrow> (Err e, s')
           | (_, s') \<Rightarrow> walkNames fn path ks s')
      | _ \<Rightarrow>
          (case walk fn (Join path (name k)) k s of
             (OK, s') \<Rightarrow> walkNames fn path ks s'
           | (SkipDir, s') \<Rightarrow> if isDir k then walkNames fn path ks s' else (SkipDir, s')
           | (Err e, s') \<Rightarrow> (Err e, s')))"

text \<open>\<^verbatim>\<open>filepath.Walk(root, fn)\<close>: a \<^verbatim>\<open>SkipDir\<close> that reaches the top is not an error.\<close>

definition Walk :: "string \<Rightarrow> 's WalkFunc \<Rightarrow> node \<Rightarrow> 's \<Rightarrow> ret \<times> 's" where
  "Walk root fn tree s =
     (case walk fn root tree s of (SkipDir, s') \<Rightarrow> (OK, s') | (r, s') \<Rightarrow> (r, s'))"

section \<open>Scanning the file tree\<close>

text \<open>What the watcher prints, and what it asks of the operating system.\<close>

datatype message =
    FileChanged string
  | ScanFailed walkErr
  | Stopping pid
  | Building
  | BuildFailed
  | BuildSuccessful
  | Starting
  | StartFailed
  | Started pid

datatype event =
    Print message
  | Signal pid
  | Kill pid
  | Wait pid
  | RunBuild string
  | StartRun string
  | Remove string

text \<open>The loop over \<^verbatim>\<open>ExcludeDirs\<close> of both walk functions: does some fragment occur in the path?\<close>

primrec excluded :: "string list \<Rightarrow> string \<Rightarrow> bool" where
  "excluded [] path = False"
| "excluded (exclude # rest) path = (if Contains path exclude then True else excluded rest path)"

text \<open>The loop of \<^verbatim>\<open>shouldWatch\<close> over \<^verbatim>\<open>IncludeExts\<close>.\<close>

primrec extIn :: "string \<Rightarrow> string list \<Rightarrow> bool" where
  "extIn ext [] = False"
| "extIn ext (includeExt # rest) = (if ext = includeExt then True else extIn ext rest)"

definition shouldWatch :: "WindConfig \<Rightarrow> string \<Rightarrow> bool" where
  "shouldWatch cfg filename = extIn (Ext filename) (IncludeExts cfg)"

text \<open>The function \<^verbatim>\<open>scanFiles\<close> passes to \<^verbatim>\<open>filepath.Walk\<close>; its state is \<^verbatim>\<open>fileStates\<close>.\<close>

definition scanFilesFn :: "WindConfig \<Rightarrow> (string \<rightharpoonup> time) WalkFunc" where
  "scanFilesFn cfg path v fs =
     (case v of
        Failure _ err \<Rightarrow> (Err err, fs)
      | Entry info \<Rightarrow>
          if excluded (ExcludeDirs cfg) path then
            (if IsDir info then (SkipDir, fs) else (OK, fs))
          else if \<not> IsDir info \<and> shouldWatch cfg path then
            (OK, fs(path \<mapsto> ModTime info))
          else (OK, fs))"

definition scanFiles :: "node \<Rightarrow> WindApp \<Rightarrow> walkErr option \<times> WindApp" where
  "scanFiles tree app =
     (case Walk ''.'' (scanFilesFn (config app)) tree (fileStates app) of
        (r, fs) \<Rightarrow>
          ((case r of Err e \<Rightarrow> Some e | _ \<Rightarrow> None), app\<lparr>fileStates := fs\<rparr>))"

text \<open>
  The function \<^verbatim>\<open>checkForChanges\<close> passes to \<^verbatim>\<open>filepath.Walk\<close>; its state is
  \<^verbatim>\<open>fileStates\<close>, the local \<^verbatim>\<open>changed\<close> and what has been printed.
\<close>

type_synonym checkState = "(string \<rightharpoonup> time) \<times> bool \<times> event list"

definition checkForChangesFn :: "WindConfig \<Rightarrow> checkState WalkFunc" where
  "checkForChangesFn cfg path v s =
     (case v of
        Failure _ err \<Rightarrow> (Err err, s)
      | Entry info \<Rightarrow>
          if excluded (ExcludeDirs cfg) path then
            (if IsDir info then (SkipDir, s) else (OK, s))
          else if \<not> IsDir info \<and> shouldWatch cfg path then
            (case s of (fs, changed, out) \<Rightarrow>
               let modTime = ModTime info in
               (case fs path of
                  None \<Rightarrow> (OK, (fs(path \<mapsto> modTime), changed, out))
                | Some lastMod \<Rightarrow>
                    if lastMod < modTime then
                      (OK, (fs(path \<mapsto> modTime), True, out @ [Print (FileChanged path)]))
                    else (OK, s)))
          else (OK, s))"

definition checkForChanges :: "node \<Rightarrow> WindApp \<Rightarrow> bool \<times> WindApp \<times> event list" where
  "checkForChanges tree app =
     (case Walk ''.'' (checkForChangesFn (config app)) tree (fileStates app, False, []) of
        (r, fs, changed, out) \<Rightarrow>
          (changed, app\<lparr>fileStates := fs\<rparr>,
           out @ (case r of Err e \<Rightarrow> [Print (ScanFailed e)] | _ \<Rightarrow> [])))"

subsection \<open>The files of a tree\<close>

text \<open>
  Every non-directory entry of the tree with its relative path, in walk order; the
  watched ones are those that pass both filters of the walk functions.
\<close>

fun files :: "string \<Rightarrow> node \<Rightarrow> (string \<times> time) list"
and filesIn :: "string \<Rightarrow> node list \<Rightarrow> (string \<times> time) list" where
  "files path (File n mt) = [(path, mt)]"
| "files path (Dir n mt kids) = filesIn path kids"
| "files path (NoStat n) = []"
| "files path (NoRead n mt) = []"
| "filesIn path [] = []"
| "filesIn path (k # ks) = files (Join path (name k)) k @ filesIn path ks"

definition eligible :: "WindConfig \<Rightarrow> string \<Rightarrow> bool" where
  "eligible cfg path = (\<not> excluded (ExcludeDirs cfg) path \<and> shouldWatch cfg path)"

definition watched :: "WindConfig \<Rightarrow> node \<Rightarrow> (string \<times> time) list" where
  "watched cfg tree = filter (\<lambda>(p, mt). eligible cfg p) (files ''.'' tree)"

text \<open>
  A tree as a file system has it: the names in a directory are pairwise different, and
  a name is not empty, is not \<^verbatim>\<open>"."\<close> and holds no separator.
\<close>

definition okName :: "string \<Rightarrow> bool" where
  "okName n = (n \<noteq> [] \<and> n \<noteq> ''.'' \<and> CHR ''/'' \<notin> set n)"

fun wfNode :: "node \<Rightarrow> bool" where
  "wfNode (Dir n mt kids) =
     (distinct (map name kids) \<and> (\<forall>k \<in> set kids. okName (name k) \<and> wfNode k))"
| "wfNode _ = True"

text \<open>The per-file index update of each walk function, as a step over the watched files.\<close>

definition scanUpd :: "string \<times> time \<Rightarrow> (string \<rightharpoonup> time) \<Rightarrow> (string \<rightharpoonup> time)" where
  "scanUpd f fs = fs(fst f \<mapsto> snd f)"

definition checkUpd :: "string \<times> time \<Rightarrow> checkState \<Rightarrow> checkState" where
  "checkUpd f s =
     (case s of (fs, changed, out) \<Rightarrow>
        (case fs (fst f) of
           None \<Rightarrow> (fs(fst f \<mapsto> snd f), changed, out)
         | Some lastMod \<Rightarrow>
             if lastMod < snd f then
               (fs(fst f \<mapsto> snd f), True, out @ [Print (FileChanged (fst f))])
             else s))"

text \<open>The shape both walk functions share: error first, exclusion next, then the update.\<close>

definition visitFn :: "WindConfig \<Rightarrow> (string \<times> time \<Rightarrow> 's \<Rightarrow> 's) \<Rightarrow> 's WalkFunc" where
  "visitFn cfg upd path v s =
     (case v of
        Failure _ err \<Rightarrow> (Err err, s)
      | Entry info \<Rightarrow>
          if excluded (ExcludeDirs cfg) path then
            (if IsDir info then (SkipDir, s) else (OK, s))
          else if \<not> IsDir info \<and> shouldWatch cfg path then (OK, upd (path, ModTime info) s)
          else (OK, s))"

text \<open>
  What a walk with either function does to the tree, apart from the state: the value
  \<^verbatim>\<open>Walk\<close>'s recursion returns, and the files that reach the index update, in order.
\<close>

fun visits :: "WindConfig \<Rightarrow> string \<Rightarrow> node \<Rightarrow> ret \<times> (string \<times> time) list"
and visitsIn :: "WindConfig \<Rightarrow> string \<Rightarrow> node list \<Rightarrow> ret \<times> (string \<times> time) list" where
  "visits cfg path (File n mt) = (OK, if eligible cfg path then [(path, mt)] else [])"
| "visits cfg path (NoRead n mt) = (Err ReadDirFailed, [])"
| "visits cfg path (NoStat n) = (Err LstatFailed, [])"
| "visits cfg path (Dir n mt kids) =
     (if excluded (ExcludeDirs cfg) path then (SkipDir, []) else visitsIn cfg path kids)"
| "visitsIn cfg path [] = (OK, [])"
| "visitsIn cfg path (k # ks) =
     (case visits cfg (Join path (name k)) k of
        (Err e, xs) \<Rightarrow> (Err e, xs)
      | (_, xs) \<Rightarrow> (case visitsIn cfg path ks of (r, ys) \<Rightarrow> (r, xs @ ys)))"

text \<open>A path is \<open>below\<close> a directory path when it is that path or extends it by a separator.\<close>

definition below :: "string \<Rightarrow> string \<Rightarrow> bool" where
  "below d q = (q = d \<or> prefix (d @ ''/'') q)"

text \<open>A file has advanced when the index holds an earlier time for its path.\<close>

definition advanced :: "(string \<rightharpoonup> time) \<Rightarrow> string \<times> time \<Rightarrow> bool" where
  "advanced fs f = (case fs (fst f) of None \<Rightarrow> False | Some t \<Rightarrow> t < snd f)"

text \<open>The configuration \<^verbatim>\<open>runWatcher\<close> builds around the detected build command.\<close>

definition runWatcherConfig :: "string \<Rightarrow> WindConfig" where
  "runWatcherConfig buildCmd =
     \<lparr>BuildCmd = buildCmd,
      RunCmd = ''./tmp/main'',
      ExcludeDirs = [''vendor'', ''.git'', ''node_modules'', ''tmp'', ''.idea'', ''.vscode''],
      IncludeExts = [''.go'', ''.html'', ''.css'', ''.js'', ''.json'', ''.yaml'', ''.yml''],
      PollInterval = 500 * 1000000,
      DebounceDelay = 300 * 1000000\<rparr>"

text \<open>The application value \<^verbatim>\<open>runWatcher\<close> starts from: no process, not building, empty index.\<close>

definition newApp :: "WindConfig \<Rightarrow> WindApp" where
  "newApp cfg = \<lparr>config = cfg, process = None, building = False, fileStates = Map.empty\<rparr>"

text \<open>A small project: a tracked file, a file not seen before, and a vendored file.\<close>

definition demoTree :: node where
  "demoTree =
     Dir ''.'' 0 [File ''main.go'' 5, File ''new.go'' 3, Dir ''vendor'' 0 [File ''dep.go'' 9]]"

definition demoApp :: WindApp where
  "demoApp =
     (newApp (runWatcherConfig ''go build -o ./tmp/main .''))\<lparr>fileStates := [''main.go'' \<mapsto> 1]\<rparr>"

text \<open>
  The tree without its excluded entries: every file and every directory whose path
  holds an excluded fragment is removed, the directory with all that is in it.
\<close>

fun prune :: "WindConfig \<Rightarrow> string \<Rightarrow> node \<Rightarrow> node"
and pruneIn :: "WindConfig \<Rightarrow> string \<Rightarrow> node list \<Rightarrow> node list" where
  "prune cfg path (Dir n mt kids) = Dir n mt (pruneIn cfg path kids)"
| "prune cfg path (File n mt) = File n mt"
| "prune cfg path (NoStat n) = NoStat n"
| "prune cfg path (NoRead n mt) = NoRead n mt"
| "pruneIn cfg path [] = []"
| "pruneIn cfg path (k # ks) =
     (if (case k of File _ _ \<Rightarrow> True | Dir _ _ _ \<Rightarrow> True | _ \<Rightarrow> False)
         \<and> excluded (ExcludeDirs cfg) (Join path (name k))
      then pruneIn cfg path ks
      else prune cfg (Join path (name k)) k # pruneIn cfg path ks)"

section \<open>The process supervisor and the build-and-run cycle\<close>

text \<open>
  \<^verbatim>\<open>stopProcess\<close>. Whether the operating system delivers the termination signal is an
  input; \<open>Signal p\<close> is \<^verbatim>\<open>process.Signal(syscall.SIGTERM)\<close>, \<open>Wait p\<close> the call of
  \<^verbatim>\<open>process.Wait()\<close>, which returns once the process has exited.
\<close>

definition stopProcess :: "bool \<Rightarrow> WindApp \<Rightarrow> WindApp \<times> event list" where
  "stopProcess signalFails app =
     (case process app of
        None \<Rightarrow> (app, [])
      | Some p \<Rightarrow>
          (app\<lparr>process := None\<rparr>,
           [Print (Stopping p), Signal p] @ (if signalFails then [Kill p] else []) @ [Wait p]))"

text \<open>What the outside world answers during one cycle.\<close>

record cycleEnv =
  signalFails :: bool
  buildFails :: bool
  startResult :: "pid option"

text \<open>
  \<^verbatim>\<open>buildAndRun\<close>, from the moment it holds the mutex to the deferred unlock: one call
  runs as a whole, since the mutex is held from the first statement to the return.
\<close>

definition buildAndRun :: "cycleEnv \<Rightarrow> WindApp \<Rightarrow> WindApp \<times> event list" where
  "buildAndRun env app =
     (if building app then (app, [])
      else
        (case stopProcess (signalFails env) (app\<lparr>building := True\<rparr>) of
           (app2, out1) \<Rightarrow>
             let out2 = out1 @ [Print Building, RunBuild (BuildCmd (config app2))] in
             if buildFails env then
               (app2\<lparr>building := False\<rparr>, out2 @ [Print BuildFailed])
             else
               let out3 = out2 @ [Print BuildSuccessful, Print Starting,
                                  StartRun (RunCmd (config app2))] in
               (case startResult env of
                  None \<Rightarrow> (app2\<lparr>building := False\<rparr>, out3 @ [Print StartFailed])
                | Some p \<Rightarrow>
                    (app2\<lparr>process := Some p, building := False\<rparr>,
                     out3 @ [Print (Started p)]))))"


fun isRunBuild :: "event \<Rightarrow> bool" where
  "isRunBuild (RunBuild _) = True"
| "isRunBuild _ = False"

text \<open>The number of times the build command was executed in a run.\<close>

definition builds :: "event list \<Rightarrow> nat" where
  "builds out = length (filter isRunBuild out)"

subsection \<open>Goroutines calling \<^verbatim>\<open>buildAndRun\<close> at the same time\<close>

text \<open>
  Each caller of \<^verbatim>\<open>buildAndRun\<close> is at one of these points: before
  \<^verbatim>\<open>app.mutex.Lock()\<close>, at the test of \<^verbatim>\<open>app.building\<close>, before \<^verbatim>\<open>stopProcess\<close>, before
  the build command, before the run command, or returned. The shared state is the
  application value, the mutex and what has been printed and executed so far.
\<close>

datatype pc = AtLock | AtCheck | AtStop | AtBuild | AtStart | Returned

record shared =
  sapp :: WindApp
  locked :: bool
  sout :: "event list"

text \<open>
  One step of a caller with answers \<open>env\<close>. \<^verbatim>\<open>Lock\<close> can be taken only while the mutex
  is free: a caller that finds it held waits, which is no step at all. Every return
  runs the deferred \<^verbatim>\<open>Unlock\<close>.
\<close>

fun threadStep :: "cycleEnv \<Rightarrow> pc \<Rightarrow> shared \<Rightarrow> pc \<times> shared" where
  "threadStep env AtLock sh =
     (if locked sh then (AtLock, sh) else (AtCheck, sh\<lparr>locked := True\<rparr>))"
| "threadStep env AtCheck sh =
     (if building (sapp sh) then (Returned, sh\<lparr>locked := False\<rparr>)
      else (AtStop, sh\<lparr>sapp := (sapp sh)\<lparr>building := True\<rparr>\<rparr>))"
| "threadStep env AtStop sh =
     (case stopProcess (signalFails env) (sapp sh) of
        (app', out) \<Rightarrow> (AtBuild, sh\<lparr>sapp := app', sout := sout sh @ out\<rparr>))"
| "threadStep env AtBuild sh =
     (let out = sout sh @ [Print Building, RunBuild (BuildCmd (config (sapp sh)))] in
      if buildFails env then
        (Returned, sh\<lparr>sapp := (sapp sh)\<lparr>building := False\<rparr>, locked := False,
                      sout := out @ [Print BuildFailed]\<rparr>)
      else (AtStart, sh\<lparr>sout := out @ [Print BuildSuccessful]\<rparr>))"
| "threadStep env AtStart sh =
     (let out = sout sh @ [Print Starting, StartRun (RunCmd (config (sapp sh)))] in
      case startResult env of
        None \<Rightarrow>
          (Returned, sh\<lparr>sapp := (sapp sh)\<lparr>building := False\<rparr>, locked := False,
                        sout := out @ [Print StartFailed]\<rparr>)
      | Some p \<Rightarrow>
          (Returned, sh\<lparr>sapp := (sapp sh)\<lparr>process := Some p, building := False\<rparr>,
                        locked := False, sout := out @ [Print (Started p)]\<rparr>))"
| "threadStep env Returned sh = (Returned, sh)"

text \<open>
  Two callers, each with its own answers, run under a schedule: the list says whose
  turn it is at each step (\<open>False\<close> the first caller, \<open>True\<close> the second).
\<close>

type_synonym twoCalls = "pc \<times> pc \<times> shared"

fun schedStep :: "cycleEnv \<Rightarrow> cycleEnv \<Rightarrow> bool \<Rightarrow> twoCalls \<Rightarrow> twoCalls" where
  "schedStep e1 e2 False (p1, p2, sh) = (case threadStep e1 p1 sh of (p1', sh') \<Rightarrow> (p1', p2, sh'))"
| "schedStep e1 e2 True (p1, p2, sh) = (case threadStep e2 p2 sh of (p2', sh') \<Rightarrow> (p1, p2', sh'))"

definition runSchedule :: "cycleEnv \<Rightarrow> cycleEnv \<Rightarrow> bool list \<Rightarrow> twoCalls \<Rightarrow> twoCalls" where
  "runSchedule e1 e2 sched c = fold (schedStep e1 e2) sched c"

definition twoCallers :: "WindApp \<Rightarrow> twoCalls" where
  "twoCallers app = (AtLock, AtLock, \<lparr>sapp = app, locked = False, sout = []\<rparr>)"

section \<open>The watch loop\<close>

text \<open>
  The state of \<^verbatim>\<open>watchFiles\<close>: the application, the local \<^verbatim>\<open>hasChanges\<close>, and the debounce
  timer, which is stopped (\<open>None\<close>) or set to fire at an instant. An input is the
  \<^verbatim>\<open>select\<close> case that is taken: the stop channel, a tick (at an instant, with the file
  tree as it is then), or the debounce timer's channel (with the outside world's
  answers for the cycle it may start).
\<close>

record watcher =
  wapp :: WindApp
  hasChanges :: bool
  debounce :: "time option"

datatype input = StopChan | Tick time node | DebounceC cycleEnv

definition newWatcher :: "WindApp \<Rightarrow> watcher" where
  "newWatcher app = \<lparr>wapp = app, hasChanges = False, debounce = None\<rparr>"

text \<open>One turn of the loop; \<open>None\<close> when the loop returns.\<close>

fun watchStep :: "input \<Rightarrow> watcher \<Rightarrow> (watcher \<times> event list) option" where
  "watchStep StopChan w = None"
| "watchStep (Tick now tree) w =
     (case checkForChanges tree (wapp w) of
        (changed, app', out) \<Rightarrow>
          if changed \<and> \<not> hasChanges w then
            Some (w\<lparr>wapp := app', hasChanges := True,
                    debounce := Some (now + DebounceDelay (config app'))\<rparr>, out)
          else Some (w\<lparr>wapp := app'\<rparr>, out))"
| "watchStep (DebounceC env) w =
     (if hasChanges w then
        (case buildAndRun env (wapp w) of
           (app', out) \<Rightarrow>
             Some (w\<lparr>wapp := app', hasChanges := False, debounce := None\<rparr>, out))
      else Some (w\<lparr>debounce := None\<rparr>, []))"

fun watchFiles :: "input list \<Rightarrow> watcher \<Rightarrow> watcher \<times> event list" where
  "watchFiles [] w = (w, [])"
| "watchFiles (i # rest) w =
     (case watchStep i w of
        None \<Rightarrow> (w, [])
      | Some (w', out) \<Rightarrow>
          (case watchFiles rest w' of (w'', out') \<Rightarrow> (w'', out @ out')))"

section \<open>Project layout detection\<close>

text \<open>
  What \<^verbatim>\<open>detectProjectStructure\<close> asks of the file system: whether \<^verbatim>\<open>os.Stat\<close> succeeds on
  a path, and the entries of a directory (name, and whether it is a directory) in the
  order \<^verbatim>\<open>os.ReadDir\<close> lists them, or no listing when it fails.
\<close>

record fsys =
  Stat :: "string \<Rightarrow> bool"
  ReadDir :: "string \<Rightarrow> (string \<times> bool) list option"

text \<open>The loop over the entries of \<^verbatim>\<open>cmd\<close> (option 4).\<close>

fun cmdSubdir :: "fsys \<Rightarrow> (string \<times> bool) list \<Rightarrow> (string \<times> string) option" where
  "cmdSubdir fs [] = None"
| "cmdSubdir fs ((entryName, entryIsDir) # entries) =
     (if entryIsDir \<and> Stat fs (Join (Join ''cmd'' entryName) ''main.go'') then
        Some (''go build -o ./tmp/main '' @ (''./cmd/'' @ entryName),
              ''Standard layout (cmd/'' @ entryName @ ''/)'')
      else cmdSubdir fs entries)"

definition detectProjectStructure :: "fsys \<Rightarrow> string \<times> string" where
  "detectProjectStructure fs =
     (if Stat fs ''cmd/api/main.go'' then
        (''go build -o ./tmp/main ./cmd/api'', ''Standard layout (cmd/api/)'')
      else if Stat fs ''cmd/main.go'' then
        (''go build -o ./tmp/main ./cmd'', ''Standard layout (cmd/)'')
      else if Stat fs ''main.go'' then
        (''go build -o ./tmp/main .'', ''Simple layout (root main.go)'')
      else
        (case (case ReadDir fs ''cmd'' of None \<Rightarrow> None | Some entries \<Rightarrow> cmdSubdir fs entries) of
           Some found \<Rightarrow> found
         | None \<Rightarrow> (''go build -o ./tmp/main .'', ''Fallback (current directory)'')))"





text \<open>An index that holds a later time for \<^verbatim>\<open>main.go\<close> than the file has now.\<close>

definition aheadApp :: WindApp where
  "aheadApp = demoApp\<lparr>fileStates := [''main.go'' \<mapsto> 10]\<rparr>"

text \<open>An index that still holds a file which is no longer in the tree.\<close>

definition staleApp :: WindApp where
  "staleApp = demoApp\<lparr>fileStates := [''gone.go'' \<mapsto> 1]\<rparr>"

text \<open>A tree in which an entry after \<^verbatim>\<open>main.go\<close> cannot be examined.\<close>

definition brokenTree :: node where
  "brokenTree = Dir ''.'' 0 [File ''main.go'' 5, NoStat ''pkg'', File ''zeta.go'' 7]"

text \<open>An application with a running process.\<close>

definition runningApp :: WindApp where
  "runningApp = demoApp\<lparr>process := Some 42\<rparr>"

text \<open>A file system given by the paths that exist and the listing of \<^verbatim>\<open>cmd\<close>.\<close>

definition fsWith :: "string list \<Rightarrow> (string \<times> bool) list option \<Rightarrow> fsys" where
  "fsWith paths entries =
     \<lparr>Stat = (\<lambda>p. p \<in> set paths),
      ReadDir = (\<lambda>d. if d = ''cmd'' then entries else None)\<rparr>"


text \<open>Poll ticks as inputs of the watch loop, each with its instant and the tree it finds.\<close>

definition tickInputs :: "(time \<times> node) list \<Rightarrow> input list" where
  "tickInputs ts = map (\<lambda>(t, tree). Tick t tree) ts"

text \<open>A world in which the cycle succeeds.\<close>

definition okEnv :: cycleEnv where
  "okEnv = \<lparr>signalFails = False, buildFails = False, startResult = Some 4711\<rparr>"

text \<open>
  Where a caller stands: inside the critical section (it holds the mutex), past the test
  of \<^verbatim>\<open>building\<close> (it has set the flag), and how many builds it has executed.
\<close>

fun inCS :: "pc \<Rightarrow> bool" where
  "inCS AtLock = False"
| "inCS Returned = False"
| "inCS _ = True"

fun pastCheck :: "pc \<Rightarrow> bool" where
  "pastCheck AtStop = True"
| "pastCheck AtBuild = True"
| "pastCheck AtStart = True"
| "pastCheck _ = False"

fun built :: "pc \<Rightarrow> nat" where
  "built AtStart = 1"
| "built Returned = 1"
| "built _ = 0"

definition mutexInv :: "twoCalls \<Rightarrow> bool" where
  "mutexInv c =
     (case c of (p1, p2, sh) \<Rightarrow>
        locked sh = (inCS p1 \<or> inCS p2)
        \<and> (inCS p1 \<and> inCS p2) = False
        \<and> building (sapp sh) = (pastCheck p1 \<or> pastCheck p2)
        \<and> builds (sout sh) = built p1 + built p2)"

text \<open>
  The second caller arrives while the first is building: the first takes the mutex, sets
  the flag and stops the old process; the second tries to lock and waits, before and
  after the first runs the build command; the first starts the application and returns;
  then the second runs.
\<close>

definition overlapSchedule :: "bool list" where
  "overlapSchedule =
     [False, False, False, True, False, True, False, True, True, True, True, True]"

definition okEnv2 :: cycleEnv where
  "okEnv2 = \<lparr>signalFails = False, buildFails = False, startResult = Some 4712\<rparr>"

section \<open>A walk that fails: the part of the tree it has passed\<close>

text \<open>
  Whether a walk with either function fails within a node: an entry that cannot be
  examined or a directory that cannot be listed fails it, unless it lies in a directory
  the walk skips.
\<close>

fun fails :: "WindConfig \<Rightarrow> string \<Rightarrow> node \<Rightarrow> bool"
and failsIn :: "WindConfig \<Rightarrow> string \<Rightarrow> node list \<Rightarrow> bool" where
  "fails cfg path (File n mt) = False"
| "fails cfg path (NoStat n) = True"
| "fails cfg path (NoRead n mt) = True"
| "fails cfg path (Dir n mt kids) =
     (\<not> excluded (ExcludeDirs cfg) path \<and> failsIn cfg path kids)"
| "failsIn cfg path [] = False"
| "failsIn cfg path (k # ks) = (fails cfg (Join path (name k)) k \<or> failsIn cfg path ks)"

text \<open>
  The tree cut off at the first failure: in every directory on the way to the failing
  entry, the entries before the one that fails stay as they are, that one is cut off in
  turn when it is a directory that could be listed and is dropped otherwise, and all
  entries after it are dropped. A root that cannot be examined or listed is left as a
  directory with nothing in it.
\<close>

fun upToFailure :: "WindConfig \<Rightarrow> string \<Rightarrow> node \<Rightarrow> node"
and upToFailureIn :: "WindConfig \<Rightarrow> string \<Rightarrow> node list \<Rightarrow> node list" where
  "upToFailure cfg path (Dir n mt kids) =
     (if excluded (ExcludeDirs cfg) path then Dir n mt kids
      else Dir n mt (upToFailureIn cfg path kids))"
| "upToFailure cfg path (File n mt) = File n mt"
| "upToFailure cfg path (NoStat n) = Dir n 0 []"
| "upToFailure cfg path (NoRead n mt) = Dir n mt []"
| "upToFailureIn cfg path [] = []"
| "upToFailureIn cfg path (k # ks) =
     (if fails cfg (Join path (name k)) k then
        (case k of
           Dir _ _ _ \<Rightarrow> [upToFailure cfg (Join path (name k)) k]
         | _ \<Rightarrow> [])
      else k # upToFailureIn cfg path ks)"

text \<open>A project in which the failure lies inside a package directory.\<close>

definition nestedBrokenTree :: node where
  "nestedBrokenTree =
     Dir ''.'' 0
       [File ''main.go'' 5,
        Dir ''pkg'' 0 [File ''a.go'' 4, NoRead ''gen'' 0, File ''z.go'' 6],
        File ''zeta.go'' 7]"

text \<open>An entry at which a walk fails by itself.\<close>

fun unreadable :: "node \<Rightarrow> bool" where
  "unreadable (NoStat _) = True"
| "unreadable (NoRead _ _) = True"
| "unreadable _ = False"

section \<open>The watch loop in time\<close>














section \<open>Properties of the scan\<close>

subsection \<open>Both walk functions have the shared shape\<close>

lemma scanFilesFn_visitFn: "scanFilesFn cfg = visitFn cfg scanUpd"
  by (rule ext)+ (simp add: scanFilesFn_def visitFn_def scanUpd_def split: visit.splits)

lemma checkForChangesFn_visitFn: "checkForChangesFn cfg = visitFn cfg checkUpd"
  by (rule ext)+
     (auto simp add: checkForChangesFn_def visitFn_def checkUpd_def Let_def
           split: visit.splits option.splits prod.splits)

lemma walk_visits:
  "walk (visitFn cfg upd) p node s =
     (fst (visits cfg p node), fold upd (snd (visits cfg p node)) s)"
  "walkNames (visitFn cfg upd) p kids s =
     (fst (visitsIn cfg p kids), fold upd (snd (visitsIn cfg p kids)) s)"
proof (induction cfg p node and cfg p kids arbitrary: s and s rule: visits_visitsIn.induct)
  case (1 cfg path n mt)
  then show ?case by (simp add: visitFn_def eligible_def)
next
  case (2 cfg path n mt)
  then show ?case by (simp add: visitFn_def)
next
  case (3 cfg path n)
  then show ?case by (simp add: visitFn_def)
next
  case (4 cfg path n mt kids)
  then show ?case by (simp add: visitFn_def)
next
  case (5 cfg path)
  then show ?case by simp
next
  case (6 cfg path k ks)
  show ?case
  proof (cases k)
    case (NoStat n)
    then show ?thesis by (simp add: visitFn_def)
  next
    case (File n mt)
    then show ?thesis using 6 by (simp add: visitFn_def eligible_def split: prod.splits)
  next
    case (Dir n mt kids)
    then show ?thesis using 6
      by (auto split: prod.splits ret.splits)
  next
    case (NoRead n mt)
    then show ?thesis by (simp add: visitFn_def)
  qed
qed

subsection \<open>Substrings and paths\<close>

lemma Contains_iff: "Contains s e \<longleftrightarrow> (\<exists>a b. s = a @ e @ b)"
proof (induction s)
  case Nil
  then show ?case by auto
next
  case (Cons c s)
  show ?case
  proof
    assume "Contains (c # s) e"
    then consider "prefix e (c # s)" | "Contains s e" by auto
    then show "\<exists>a b. c # s = a @ e @ b"
    proof cases
      case 1
      then obtain b where "c # s = e @ b" by (auto simp: prefix_def)
      then have "c # s = [] @ e @ b" by simp
      then show ?thesis by blast
    next
      case 2
      then obtain a b where "s = a @ e @ b" using Cons.IH by blast
      then have "c # s = (c # a) @ e @ b" by simp
      then show ?thesis by blast
    qed
  next
    assume "\<exists>a b. c # s = a @ e @ b"
    then obtain a b where ab: "c # s = a @ e @ b" by blast
    show "Contains (c # s) e"
    proof (cases a)
      case Nil
      then have "prefix e (c # s)" using ab by (simp add: prefix_def)
      then show ?thesis by simp
    next
      case (Cons x a')
      then have "s = a' @ e @ b" using ab by simp
      then have "Contains s e" using Cons.IH by blast
      then show ?thesis by simp
    qed
  qed
qed

lemma Contains_append: "Contains s e \<Longrightarrow> Contains (s @ r) e"
  unfolding Contains_iff by (metis append.assoc)

lemma excluded_iff: "excluded es p \<longleftrightarrow> (\<exists>e \<in> set es. Contains p e)"
  by (induction es) auto

lemma excluded_append: "excluded es p \<Longrightarrow> excluded es (p @ r)"
  by (auto simp: excluded_iff intro: Contains_append)

lemma extIn_iff: "extIn x es \<longleftrightarrow> x \<in> set es"
  by (induction es) auto


lemma slash_not_dot: "p @ CHR ''/'' # n \<noteq> ''.''"
  by (cases p) auto

lemma Join_not_dot: "n \<noteq> ''.'' \<Longrightarrow> Join p n \<noteq> ''.''"
  by (auto simp: Join_def slash_not_dot)

lemma below_Join: "p \<noteq> ''.'' \<Longrightarrow> below (Join p n) q \<Longrightarrow> below p q"
  by (auto simp: below_def Join_def prefix_def)

lemma files_below:
  "p \<noteq> ''.'' \<Longrightarrow> f \<in> set (files p node) \<Longrightarrow> below p (fst f)"
  "p \<noteq> ''.'' \<Longrightarrow> f \<in> set (filesIn p kids) \<Longrightarrow> below p (fst f)"
proof (induction p node and p kids rule: files_filesIn.induct)
  case (1 path n mt)
  then show ?case by (simp add: below_def)
next
  case (6 path k ks)
  have "Join path (name k) \<noteq> ''.''" using 6(3) by (auto simp: Join_def slash_not_dot)
  then show ?case using 6 by (auto dest: below_Join)
qed simp_all

lemma below_excluded: "below d q \<Longrightarrow> excluded es d \<Longrightarrow> excluded es q"
  by (auto simp: below_def prefix_def dest: excluded_append)

subsection \<open>The files a walk visits are the watched files of the tree\<close>

lemma excluded_files_filtered:
  assumes "p \<noteq> ''.''" "excluded (ExcludeDirs cfg) p"
  shows "filter (\<lambda>(q, mt). eligible cfg q) (filesIn p kids) = []"
proof -
  have "\<And>f. f \<in> set (filesIn p kids) \<Longrightarrow> \<not> eligible cfg (fst f)"
    using assms files_below(2) below_excluded by (metis eligible_def)
  then show ?thesis by (auto simp: filter_empty_conv)
qed

lemma visits_files:
  "\<not> excluded (ExcludeDirs cfg) ''.'' \<Longrightarrow>
     prefix (snd (visits cfg p node)) (filter (\<lambda>(q, mt). eligible cfg q) (files p node)) \<and>
     ((\<forall>e. fst (visits cfg p node) \<noteq> Err e) \<longrightarrow>
        snd (visits cfg p node) = filter (\<lambda>(q, mt). eligible cfg q) (files p node))"
  "\<not> excluded (ExcludeDirs cfg) ''.'' \<Longrightarrow>
     prefix (snd (visitsIn cfg p kids)) (filter (\<lambda>(q, mt). eligible cfg q) (filesIn p kids)) \<and>
     ((\<forall>e. fst (visitsIn cfg p kids) \<noteq> Err e) \<longrightarrow>
        snd (visitsIn cfg p kids) = filter (\<lambda>(q, mt). eligible cfg q) (filesIn p kids))"
proof (induction cfg p node and cfg p kids rule: visits_visitsIn.induct)
  case (4 cfg path n mt kids)
  show ?case
  proof (cases "excluded (ExcludeDirs cfg) path")
    case True
    then have "path \<noteq> ''.''" using 4(2) by auto
    then show ?thesis using True by (simp add: excluded_files_filtered)
  next
    case False
    then show ?thesis using 4 by simp
  qed
next
  case (6 cfg path k ks)
  obtain r xs where v: "visits cfg (Join path (name k)) k = (r, xs)" by force
  obtain r' ys where w: "visitsIn cfg path ks = (r', ys)" by force
  show ?case
  proof (cases r)
    case (Err e)
    then show ?thesis using 6(1)[OF 6(4)] v by (auto simp: prefix_def)
  next
    case OK
    then show ?thesis using 6(1)[OF 6(4)] 6(2)[OF v[symmetric] OK 6(4)] v w by (auto simp: prefix_def)
  next
    case SkipDir
    then show ?thesis using 6(1)[OF 6(4)] 6(3)[OF v[symmetric] SkipDir 6(4)] v w by (auto simp: prefix_def)
  qed
qed simp_all

subsection \<open>In a well-formed tree no two files have the same path\<close>

lemma below_first:
  assumes "CHR ''/'' \<notin> set n" "below (Join p n) q"
  shows "takeWhile (\<lambda>c. c \<noteq> CHR ''/'') (drop (if p = ''.'' then 0 else length p + 1) q) = n"
proof -
  let ?P = "if p = ''.'' then [] else p @ ''/''"
  have J: "Join p n = ?P @ n" by (simp add: Join_def)
  from assms(2) obtain r where r: "q = ?P @ n @ r" "r = [] \<or> hd r = CHR ''/'' \<and> r \<noteq> []"
    unfolding below_def J prefix_def by auto
  have "drop (if p = ''.'' then 0 else length p + 1) q = n @ r" using r(1) by auto
  moreover have "takeWhile (\<lambda>c. c \<noteq> CHR ''/'') (n @ r) = n"
  proof -
    have n: "\<And>x. x \<in> set n \<Longrightarrow> x \<noteq> CHR ''/''" using assms(1) by auto
    have "takeWhile (\<lambda>c. c \<noteq> CHR ''/'') (n @ r) = n @ takeWhile (\<lambda>c. c \<noteq> CHR ''/'') r"
      using n by (rule takeWhile_append2)
    moreover have "takeWhile (\<lambda>c. c \<noteq> CHR ''/'') r = []"
      using r(2) by (cases r) auto
    ultimately show ?thesis by simp
  qed
  ultimately show ?thesis by simp
qed

lemma below_disjoint:
  assumes "CHR ''/'' \<notin> set n1" "CHR ''/'' \<notin> set n2" "below (Join p n1) q" "below (Join p n2) q"
  shows "n1 = n2"
  using below_first[OF assms(1,3)] below_first[OF assms(2,4)] by simp

lemma files_distinct:
  "wfNode node \<Longrightarrow> distinct (map fst (files p node))"
  "distinct (map name kids) \<Longrightarrow> (\<forall>k \<in> set kids. okName (name k) \<and> wfNode k) \<Longrightarrow>
     distinct (map fst (filesIn p kids))"
proof (induction p node and p kids rule: files_filesIn.induct)
  case (6 path k ks)
  have ok: "okName (name k)" using 6 by simp
  then have J: "Join path (name k) \<noteq> ''.''" by (simp add: Join_not_dot okName_def)
  have d1: "distinct (map fst (files (Join path (name k)) k))" using 6 by simp
  have d2: "distinct (map fst (filesIn path ks))" using 6 by simp
  have "fst f \<noteq> fst g" if f: "f \<in> set (files (Join path (name k)) k)" and g: "g \<in> set (filesIn path ks)" for f g
  proof
    assume eq: "fst f = fst g"
    have bf: "below (Join path (name k)) (fst f)" using files_below(1)[OF J f] .
    have "\<exists>k' \<in> set ks. below (Join path (name k')) (fst g)"
      using g 6(4)
    proof (induction ks)
      case Nil
      then show ?case by simp
    next
      case (Cons a as)
      then show ?case 
        by (auto simp: okName_def dest!: files_below(1)[OF Join_not_dot, rotated])
    qed
    then obtain k' where k': "k' \<in> set ks" "below (Join path (name k')) (fst f)" using eq by auto
    then have "name k = name k'" using below_disjoint[OF _ _ bf k'(2)] ok 6(4) by (auto simp: okName_def)
    then show False using 6(3) k'(1) by auto
  qed
  then show ?case using d1 d2 by (auto simp: distinct_map inj_on_def) 
qed simp_all

subsection \<open>Both scans as folds over the visited files\<close>

lemma Walk_visits:
  "Walk p (visitFn cfg upd) tree s =
     ((case fst (visits cfg p tree) of SkipDir \<Rightarrow> OK | r \<Rightarrow> r),
      fold upd (snd (visits cfg p tree)) s)"
  by (simp add: Walk_def walk_visits split: ret.splits)

lemma scanFiles_fold:
  "scanFiles tree app =
     ((case fst (visits (config app) ''.'' tree) of Err e \<Rightarrow> Some e | _ \<Rightarrow> None),
      app\<lparr>fileStates := fold scanUpd (snd (visits (config app) ''.'' tree)) (fileStates app)\<rparr>)"
  by (simp add: scanFiles_def scanFilesFn_visitFn Walk_visits split: ret.splits)

lemma checkForChanges_fold:
  "checkForChanges tree app =
     (case fold checkUpd (snd (visits (config app) ''.'' tree)) (fileStates app, False, []) of
        (fs, changed, out) \<Rightarrow>
          (changed, app\<lparr>fileStates := fs\<rparr>,
           out @ (case fst (visits (config app) ''.'' tree) of
                    Err e \<Rightarrow> [Print (ScanFailed e)] | _ \<Rightarrow> [])))"
  by (simp add: checkForChanges_def checkForChangesFn_visitFn Walk_visits split: ret.splits prod.splits)

lemma fold_scanUpd:
  "distinct (map fst xs) \<Longrightarrow>
     fold scanUpd xs fs p = (case map_of xs p of None \<Rightarrow> fs p | Some mt \<Rightarrow> Some mt)"
proof (induction xs arbitrary: fs)
  case Nil
  then show ?case by simp
next
  case (Cons x xs)
  then have "map_of xs (fst x) = None" by (simp add: map_of_eq_None_iff)
  then show ?case using Cons by (cases x) (auto simp: scanUpd_def split: option.splits)
qed

lemma fold_checkUpd_fs:
  "distinct (map fst xs) \<Longrightarrow>
     fst (fold checkUpd xs (fs, c, out)) p =
       (case map_of xs p of
          None \<Rightarrow> fs p
        | Some mt \<Rightarrow> (case fs p of None \<Rightarrow> Some mt
                       | Some t \<Rightarrow> if t < mt then Some mt else Some t))"
proof (induction xs arbitrary: fs c out)
  case Nil
  then show ?case by simp
next
  case (Cons x xs)
  obtain q mt where x: "x = (q, mt)" by force
  have none: "map_of xs q = None" using Cons.prems x by (simp add: map_of_eq_None_iff)
  obtain fs1 c1 out1 where s1: "checkUpd x (fs, c, out) = (fs1, c1, out1)"
    using prod_cases3 by blast
  have fs1: "fs1 = (case fs q of None \<Rightarrow> fs(q \<mapsto> mt)
                    | Some t \<Rightarrow> if t < mt then fs(q \<mapsto> mt) else fs)"
    using s1 x by (auto simp: checkUpd_def split: option.splits if_splits)
  have "fst (fold checkUpd (x # xs) (fs, c, out)) p = fst (fold checkUpd xs (fs1, c1, out1)) p"
    by (simp add: s1)
  also have "\<dots> = (case map_of xs p of
          None \<Rightarrow> fs1 p
        | Some mt \<Rightarrow> (case fs1 p of None \<Rightarrow> Some mt
                       | Some t \<Rightarrow> if t < mt then Some mt else Some t))"
    using Cons.IH Cons.prems by simp
  also have "\<dots> = (case map_of (x # xs) p of
          None \<Rightarrow> fs p
        | Some mt \<Rightarrow> (case fs p of None \<Rightarrow> Some mt
                       | Some t \<Rightarrow> if t < mt then Some mt else Some t))"
    using none by (auto simp: fs1 x split: option.splits)
  finally show ?case .
qed


lemma fold_checkUpd_changed:
  "distinct (map fst xs) \<Longrightarrow>
     fst (snd (fold checkUpd xs (fs, c, out))) = (c \<or> (\<exists>f \<in> set xs. advanced fs f))"
proof (induction xs arbitrary: fs c out)
  case Nil
  then show ?case by simp
next
  case (Cons x xs)
  obtain q mt where x: "x = (q, mt)" by force
  have notin: "\<And>g. g \<in> set xs \<Longrightarrow> fst g \<noteq> q" using Cons.prems x by auto
  obtain fs1 c1 out1 where s1: "checkUpd x (fs, c, out) = (fs1, c1, out1)"
    using prod_cases3 by blast
  have c1: "c1 = (c \<or> advanced fs x)"
    using s1 x by (auto simp: checkUpd_def advanced_def split: option.splits if_splits)
  have other: "\<And>p. p \<noteq> q \<Longrightarrow> fs1 p = fs p"
    using s1 x by (auto simp: checkUpd_def split: option.splits if_splits)
  have same: "\<And>g. g \<in> set xs \<Longrightarrow> advanced fs1 g = advanced fs g"
    using notin other by (simp add: advanced_def)
  have "fst (snd (fold checkUpd (x # xs) (fs, c, out))) = fst (snd (fold checkUpd xs (fs1, c1, out1)))"
    by (simp add: s1)
  also have "\<dots> = (c1 \<or> (\<exists>f \<in> set xs. advanced fs1 f))"
    using Cons.IH Cons.prems by simp
  also have "\<dots> = (c \<or> (\<exists>f \<in> set (x # xs). advanced fs f))"
    using same c1 by auto
  finally show ?case .
qed

subsection \<open>What a poll scan reports and records\<close>

lemma runWatcherConfig_root: "\<not> excluded (ExcludeDirs (runWatcherConfig b)) ''.''"
  by (simp add: runWatcherConfig_def)

lemma watched_distinct: "wfNode tree \<Longrightarrow> distinct (map fst (watched cfg tree))"
  unfolding watched_def by (simp add: files_distinct(1) distinct_map_filter)

lemma visits_completed:
  assumes "\<not> excluded (ExcludeDirs cfg) ''.''"
    and "fst (Walk ''.'' (visitFn cfg upd) tree s) = OK"
  shows "snd (visits cfg ''.'' tree) = watched cfg tree"
proof -
  have "\<forall>e. fst (visits cfg ''.'' tree) \<noteq> Err e"
    using assms(2) by (auto simp: Walk_visits split: ret.splits)
  then show ?thesis using visits_files(1)[OF assms(1), of "''.''" tree] by (simp add: watched_def)
qed

lemma visits_distinct:
  assumes "\<not> excluded (ExcludeDirs cfg) ''.''" "wfNode tree"
  shows "distinct (map fst (snd (visits cfg ''.'' tree)))"
proof -
  have "prefix (snd (visits cfg ''.'' tree)) (watched cfg tree)"
    using visits_files(1)[OF assms(1)] by (simp add: watched_def)
  then obtain r where "watched cfg tree = snd (visits cfg ''.'' tree) @ r" by (auto simp: prefix_def)
  then show ?thesis using watched_distinct[OF assms(2), of cfg] by simp
qed

lemma checkForChanges_changed:
  "fst (checkForChanges tree app) =
     fst (snd (fold checkUpd (snd (visits (config app) ''.'' tree)) (fileStates app, False, [])))"
  by (simp add: checkForChanges_fold split: prod.splits)

lemma checkForChanges_fileStates:
  "fileStates (fst (snd (checkForChanges tree app))) =
     fst (fold checkUpd (snd (visits (config app) ''.'' tree)) (fileStates app, False, []))"
  by (simp add: checkForChanges_fold split: prod.splits)

lemma checkForChanges_config: "config (fst (snd (checkForChanges tree app))) = config app"
  by (simp add: checkForChanges_fold split: prod.splits)

text \<open>
  Claim C1. A poll scan that \<^verbatim>\<open>filepath.Walk\<close> completes over a well-formed tree, with a
  configuration that does not exclude the root \<^verbatim>\<open>"."\<close>: \<^verbatim>\<open>checkForChanges\<close> returns
  true exactly when some watched file of the tree (included extension, no excluded
  fragment in its path) has an index entry and a modification time strictly after it;
  every watched file's entry becomes its new time if it was absent (first sight, which
  reports nothing) or strictly older, and stays as it was otherwise; no other entry
  changes; and the same call repeated at once on the same tree returns false.
\<close>

theorem checkForChanges_reports_advanced_files:
  assumes "wfNode tree"
    and "\<not> excluded (ExcludeDirs (config app)) ''.''"
    and "fst (Walk ''.'' (checkForChangesFn (config app)) tree (fileStates app, False, [])) = OK"
  shows "fst (checkForChanges tree app) =
           (\<exists>f \<in> set (watched (config app) tree). advanced (fileStates app) f)
       \<and> (\<forall>f \<in> set (watched (config app) tree).
            fileStates (fst (snd (checkForChanges tree app))) (fst f) =
              (case fileStates app (fst f) of
                 None \<Rightarrow> Some (snd f)
               | Some t \<Rightarrow> if t < snd f then Some (snd f) else Some t))
       \<and> (\<forall>p. p \<notin> fst ` set (watched (config app) tree) \<longrightarrow>
            fileStates (fst (snd (checkForChanges tree app))) p = fileStates app p)
       \<and> fst (checkForChanges tree (fst (snd (checkForChanges tree app)))) = False"
proof -
  let ?cfg = "config app"
  let ?xs = "watched ?cfg tree"
  let ?app' = "fst (snd (checkForChanges tree app))"
  have vis: "snd (visits ?cfg ''.'' tree) = ?xs"
    using visits_completed[OF assms(2)] assms(3) by (simp add: checkForChangesFn_visitFn)
  have dist: "distinct (map fst ?xs)" using assms(1) by (rule watched_distinct)
  have chg: "fst (checkForChanges tree app) = (\<exists>f \<in> set ?xs. advanced (fileStates app) f)"
    using fold_checkUpd_changed[OF dist, of "fileStates app" False "[]"]
    by (simp add: checkForChanges_changed vis)
  have fs: "fileStates ?app' p =
      (case map_of ?xs p of
          None \<Rightarrow> fileStates app p
        | Some mt \<Rightarrow> (case fileStates app p of None \<Rightarrow> Some mt
                       | Some t \<Rightarrow> if t < mt then Some mt else Some t))" for p
    using fold_checkUpd_fs[OF dist, of "fileStates app" False "[]" p]
    by (simp add: checkForChanges_fileStates vis)
  have upd: "\<forall>f \<in> set ?xs. fileStates ?app' (fst f) =
              (case fileStates app (fst f) of
                 None \<Rightarrow> Some (snd f)
               | Some t \<Rightarrow> if t < snd f then Some (snd f) else Some t)"
  proof
    fix f assume "f \<in> set ?xs"
    then have "(fst f, snd f) \<in> set ?xs" by simp
    then have "map_of ?xs (fst f) = Some (snd f)" by (simp only: map_of_eq_Some_iff[OF dist])
    then show "fileStates ?app' (fst f) =
              (case fileStates app (fst f) of
                 None \<Rightarrow> Some (snd f)
               | Some t \<Rightarrow> if t < snd f then Some (snd f) else Some t)"
      by (simp add: fs)
  qed
  have other: "\<forall>p. p \<notin> fst ` set ?xs \<longrightarrow> fileStates ?app' p = fileStates app p"
  proof (intro allI impI)
    fix p assume "p \<notin> fst ` set ?xs"
    then have "map_of ?xs p = None" by (simp add: map_of_eq_None_iff)
    then show "fileStates ?app' p = fileStates app p" by (simp add: fs)
  qed
  have cfg': "config ?app' = ?cfg" by (rule checkForChanges_config)
  have "\<not> advanced (fileStates ?app') f" if "f \<in> set ?xs" for f
    using upd that by (auto simp: advanced_def split: option.splits if_splits)
  then have again: "fst (checkForChanges tree ?app') = False"
    using fold_checkUpd_changed[OF dist, of "fileStates ?app'" False "[]"]
    by (simp add: checkForChanges_changed[of tree ?app'] cfg' vis)
  show ?thesis using chg upd other again by blast
qed


lemmas demo_defs = demoApp_def demoTree_def newApp_def runWatcherConfig_def Join_def
  eligible_def shouldWatch_def Ext_def okName_def

lemma demo_watched: "watched (config demoApp) demoTree = [(''main.go'', 5), (''new.go'', 3)]"
  by (simp add: watched_def demo_defs)

lemma demo_walk_ok:
  "fst (Walk ''.'' (checkForChangesFn (config demoApp)) demoTree (fileStates demoApp, False, [])) = OK"
  by (simp add: Walk_def checkForChangesFn_def demo_defs)

lemma demo_wf: "wfNode demoTree"
  by (simp add: demo_defs)

lemma demo_root: "\<not> excluded (ExcludeDirs (config demoApp)) ''.''"
  by (simp add: demo_defs)

theorem checkForChanges_reports_advanced_files_witness:
  "wfNode demoTree
   \<and> \<not> excluded (ExcludeDirs (config demoApp)) ''.''
   \<and> fst (Walk ''.'' (checkForChangesFn (config demoApp)) demoTree
            (fileStates demoApp, False, [])) = OK
   \<and> fst (checkForChanges demoTree demoApp) = True
   \<and> fileStates (fst (snd (checkForChanges demoTree demoApp))) ''main.go'' = Some 5
   \<and> fileStates (fst (snd (checkForChanges demoTree demoApp))) ''new.go'' = Some 3
   \<and> fileStates (fst (snd (checkForChanges demoTree demoApp))) ''vendor/dep.go'' = None
   \<and> fst (checkForChanges demoTree (fst (snd (checkForChanges demoTree demoApp)))) = False"
proof -
  note main = checkForChanges_reports_advanced_files[OF demo_wf demo_root demo_walk_ok]
  have fs0: "fileStates demoApp = [''main.go'' \<mapsto> 1]" by (simp add: demoApp_def newApp_def)
  have 1: "fst (checkForChanges demoTree demoApp) = True"
    using main by (simp add: demo_watched advanced_def fs0)
  have 2: "fileStates (fst (snd (checkForChanges demoTree demoApp))) ''main.go'' = Some 5"
    using main by (simp add: demo_watched fs0)
  have 3: "fileStates (fst (snd (checkForChanges demoTree demoApp))) ''new.go'' = Some 3"
    using main by (simp add: demo_watched fs0)
  have 4: "fileStates (fst (snd (checkForChanges demoTree demoApp))) ''vendor/dep.go'' = None"
    using main by (simp add: demo_watched fs0)
  show ?thesis using demo_wf demo_root demo_walk_ok 1 2 3 4 main by simp
qed

subsection \<open>Walks that fail: what was visited is an initial part of the watched files\<close>

lemma visits_subseq:
  "subseq (snd (visits cfg p node)) (filter (\<lambda>(q, mt). eligible cfg q) (files p node))"
  "subseq (snd (visitsIn cfg p kids)) (filter (\<lambda>(q, mt). eligible cfg q) (filesIn p kids))"
proof (induction cfg p node and cfg p kids rule: visits_visitsIn.induct)
  case (6 cfg path k ks)
  obtain r xs where v: "visits cfg (Join path (name k)) k = (r, xs)" by force
  obtain r' ys where w: "visitsIn cfg path ks = (r', ys)" by force
  let ?f = "filter (\<lambda>(q, mt). eligible cfg q)"
  have a: "subseq xs (?f (files (Join path (name k)) k))" using 6(1) v by simp
  show ?case
  proof (cases r)
    case (Err e)
    then show ?thesis using a v by (simp add: subseq_rev_drop_many)
  next
    case OK
    then have "subseq ys (?f (filesIn path ks))" using 6(2)[OF v[symmetric] OK] w by simp
    then show ?thesis using a v w OK by (simp add: list_emb_append_mono)
  next
    case SkipDir
    then have "subseq ys (?f (filesIn path ks))" using 6(3)[OF v[symmetric] SkipDir] w by simp
    then show ?thesis using a v w SkipDir by (simp add: list_emb_append_mono)
  qed
qed simp_all

lemma visits_subseq_watched: "subseq (snd (visits cfg ''.'' tree)) (watched cfg tree)"
  unfolding watched_def by (rule visits_subseq(1))

lemma visits_distinct_wf:
  assumes "wfNode tree"
  shows "distinct (map fst (snd (visits cfg ''.'' tree)))"
proof -
  have "subseq (map fst (snd (visits cfg ''.'' tree))) (map fst (watched cfg tree))"
    using visits_subseq_watched by (rule subseq_map)
  then have "map fst (snd (visits cfg ''.'' tree)) \<in> set (subseqs (map fst (watched cfg tree)))"
    by simp
  then show ?thesis using watched_distinct[OF assms] by (rule subseqs_distinctD)
qed

lemma visits_set: "f \<in> set (snd (visits cfg ''.'' tree)) \<Longrightarrow> f \<in> set (watched cfg tree)"
  using visits_subseq_watched[of cfg tree] by (auto elim: list_emb_set)

text \<open>
  Two parts of the poll scan's contract hold whether or not the walk completes: a
  reported change always comes from a watched file that has advanced (a file seen for
  the first time reports nothing), and the same call repeated at once reports nothing.
\<close>

lemma checkForChanges_reports_only_advanced:
  assumes "wfNode tree"
  shows "fst (checkForChanges tree app) \<Longrightarrow>
           \<exists>f \<in> set (watched (config app) tree). advanced (fileStates app) f"
    and "fst (checkForChanges tree (fst (snd (checkForChanges tree app)))) = False"
proof -
  let ?xs = "snd (visits (config app) ''.'' tree)"
  let ?app' = "fst (snd (checkForChanges tree app))"
  have dist: "distinct (map fst ?xs)" using assms by (rule visits_distinct_wf)
  have chg: "fst (checkForChanges tree app) = (\<exists>f \<in> set ?xs. advanced (fileStates app) f)"
    using fold_checkUpd_changed[OF dist, of "fileStates app" False "[]"]
    by (simp add: checkForChanges_changed)
  show "fst (checkForChanges tree app) \<Longrightarrow>
           \<exists>f \<in> set (watched (config app) tree). advanced (fileStates app) f"
    using chg visits_set by blast
  have "\<not> advanced (fileStates ?app') f" if "f \<in> set ?xs" for f
  proof -
    have "(fst f, snd f) \<in> set ?xs" using that by simp
    then have m: "map_of ?xs (fst f) = Some (snd f)"
      by (simp only: map_of_eq_Some_iff[OF dist])
    show ?thesis
      using fold_checkUpd_fs[OF dist, of "fileStates app" False "[]" "fst f"] m
      by (auto simp: checkForChanges_fileStates advanced_def split: option.splits if_splits)
  qed
  then show "fst (checkForChanges tree ?app') = False"
    using fold_checkUpd_changed[OF dist, of "fileStates ?app'" False "[]"]
    by (simp add: checkForChanges_changed[of tree ?app'] checkForChanges_config)
qed

subsection \<open>The initial scan and the poll scan compared\<close>

lemma scanFiles_fileStates:
  "fileStates (snd (scanFiles tree app)) =
     fold scanUpd (snd (visits (config app) ''.'' tree)) (fileStates app)"
  by (simp add: scanFiles_fold)

lemma scanFiles_rest:
  "snd (scanFiles tree app) = app\<lparr>fileStates := fileStates (snd (scanFiles tree app))\<rparr>"
  by (simp add: scanFiles_fold)

lemma checkForChanges_rest:
  "fst (snd (checkForChanges tree app)) =
     app\<lparr>fileStates := fileStates (fst (snd (checkForChanges tree app)))\<rparr>"
  by (simp add: checkForChanges_fold split: prod.splits)

lemma scanFiles_err:
  "fst (scanFiles tree app) = (case fst (visits (config app) ''.'' tree) of Err e \<Rightarrow> Some e | _ \<Rightarrow> None)"
  by (simp add: scanFiles_fold)

lemma checkForChanges_walk_ret:
  "fst (Walk ''.'' (checkForChangesFn (config app)) tree s) =
     (case fst (visits (config app) ''.'' tree) of SkipDir \<Rightarrow> OK | r \<Rightarrow> r)"
  by (simp add: checkForChangesFn_visitFn Walk_visits)

text \<open>
  Claim C7 as stated fails: from an index that holds a later time for a file than the
  file has now, \<^verbatim>\<open>scanFiles\<close> overwrites the entry and \<^verbatim>\<open>checkForChanges\<close> keeps it.
\<close>

theorem scanFiles_checkForChanges_differ:
  "fileStates (snd (scanFiles demoTree aheadApp)) ''main.go'' = Some 5
   \<and> fileStates (fst (snd (checkForChanges demoTree aheadApp))) ''main.go'' = Some 10
   \<and> fileStates (snd (scanFiles demoTree aheadApp))
       \<noteq> fileStates (fst (snd (checkForChanges demoTree aheadApp)))"
proof -
  have a: "fileStates (snd (scanFiles demoTree aheadApp)) ''main.go'' = Some 5"
    by (simp add: scanFiles_def Walk_def scanFilesFn_def aheadApp_def demo_defs)
  have b: "fileStates (fst (snd (checkForChanges demoTree aheadApp))) ''main.go'' = Some 10"
    by (simp add: checkForChanges_def Walk_def checkForChangesFn_def aheadApp_def demo_defs)
  have "fileStates (snd (scanFiles demoTree aheadApp))
          \<noteq> fileStates (fst (snd (checkForChanges demoTree aheadApp)))"
  proof
    assume e: "fileStates (snd (scanFiles demoTree aheadApp))
                 = fileStates (fst (snd (checkForChanges demoTree aheadApp)))"
    from a b show False unfolding e by simp
  qed
  with a b show ?thesis by simp
qed

text \<open>
  Claim C7, amended. \<^verbatim>\<open>scanFiles\<close> stores the current time of every watched file it visits
  unconditionally; \<^verbatim>\<open>checkForChanges\<close> stores it on first sight or when it is strictly
  newer. Over a well-formed tree, from an index that holds no time later than the file's
  current one (the empty index of startup among them), both walks stop at the same
  place and leave the same application state; only \<^verbatim>\<open>checkForChanges\<close> reports changes.
\<close>

theorem scanFiles_checkForChanges_same_index:
  assumes "wfNode tree"
    and "\<forall>f \<in> set (watched (config app) tree).
           \<forall>t. fileStates app (fst f) = Some t \<longrightarrow> t \<le> snd f"
  shows "snd (scanFiles tree app) = fst (snd (checkForChanges tree app))
       \<and> (fst (scanFiles tree app) = None) =
           (fst (Walk ''.'' (checkForChangesFn (config app)) tree (fileStates app, False, [])) = OK)"
proof -
  let ?xs = "snd (visits (config app) ''.'' tree)"
  have dist: "distinct (map fst ?xs)" using assms(1) by (rule visits_distinct_wf)
  have le: "t \<le> mt" if "map_of ?xs p = Some mt" "fileStates app p = Some t" for p mt t
  proof -
    have "(p, mt) \<in> set ?xs" using that(1) by (rule map_of_SomeD)
    then have "(p, mt) \<in> set (watched (config app) tree)" by (rule visits_set)
    then show ?thesis using assms(2) that(2) by auto
  qed
  have "fold scanUpd ?xs (fileStates app) p =
        fst (fold checkUpd ?xs (fileStates app, False, [])) p" for p
  proof (cases "map_of ?xs p")
    case None
    then show ?thesis by (simp add: fold_scanUpd[OF dist] fold_checkUpd_fs[OF dist])
  next
    case (Some mt)
    show ?thesis
    proof (cases "fileStates app p")
      case None
      then show ?thesis using Some by (simp add: fold_scanUpd[OF dist] fold_checkUpd_fs[OF dist])
    next
      case (Some t)
      then have "t \<le> mt" using le[OF \<open>map_of ?xs p = Some mt\<close>] by simp
      then show ?thesis using Some \<open>map_of ?xs p = Some mt\<close>
        by (simp add: fold_scanUpd[OF dist] fold_checkUpd_fs[OF dist])
    qed
  qed
  then have fs: "fileStates (snd (scanFiles tree app)) =
                 fileStates (fst (snd (checkForChanges tree app)))"
    by (simp add: scanFiles_fileStates checkForChanges_fileStates fun_eq_iff)
  have "snd (scanFiles tree app) = fst (snd (checkForChanges tree app))"
    using scanFiles_rest[of tree app] checkForChanges_rest[of tree app] fs by simp
  moreover have "(fst (scanFiles tree app) = None) =
           (fst (Walk ''.'' (checkForChangesFn (config app)) tree (fileStates app, False, [])) = OK)"
    by (simp add: scanFiles_err checkForChanges_walk_ret split: ret.splits)
  ultimately show ?thesis by simp
qed

theorem scanFiles_checkForChanges_same_index_witness:
  "wfNode demoTree
   \<and> fileStates demoApp ''main.go'' = Some 1
   \<and> snd (scanFiles demoTree demoApp) = fst (snd (checkForChanges demoTree demoApp))
   \<and> fst (scanFiles demoTree demoApp) = None"
proof -
  have fs0: "fileStates demoApp = [''main.go'' \<mapsto> 1]" by (simp add: demoApp_def newApp_def)
  have le: "\<forall>f \<in> set (watched (config demoApp) demoTree).
              \<forall>t. fileStates demoApp (fst f) = Some t \<longrightarrow> t \<le> snd f"
    by (simp add: demo_watched fs0)
  show ?thesis
    using scanFiles_checkForChanges_same_index[OF demo_wf le] demo_wf demo_walk_ok fs0
    by simp
qed

subsection \<open>The keys of the index\<close>

lemma dom_fold_scanUpd: "dom (fold scanUpd xs fs) = dom fs \<union> fst ` set xs"
  by (induction xs arbitrary: fs) (auto simp: scanUpd_def)

lemma dom_checkUpd: "dom (fst (checkUpd f s)) = insert (fst f) (dom (fst s))"
  by (cases s) (auto simp: checkUpd_def split: option.splits)

lemma dom_fold_checkUpd: "dom (fst (fold checkUpd xs s)) = dom (fst s) \<union> fst ` set xs"
  by (induction xs arbitrary: s) (auto simp: dom_checkUpd)

lemma visits_completed_scan:
  assumes "\<not> excluded (ExcludeDirs (config app)) ''.''" and "fst (scanFiles tree app) = None"
  shows "snd (visits (config app) ''.'' tree) = watched (config app) tree"
proof -
  have "\<forall>e. fst (visits (config app) ''.'' tree) \<noteq> Err e"
    using assms(2) by (auto simp: scanFiles_err)
  then show ?thesis
    using visits_files(1)[OF assms(1), of "''.''" tree] by (simp add: watched_def)
qed

text \<open>
  Claim C5 as stated fails: a poll scan that completes leaves in the index the entry of
  a file that is no longer in the tree.
\<close>

theorem index_keeps_removed_file:
  "fst (Walk ''.'' (checkForChangesFn (config staleApp)) demoTree
          (fileStates staleApp, False, [])) = OK
   \<and> ''gone.go'' \<in> dom (fileStates (fst (snd (checkForChanges demoTree staleApp))))
   \<and> ''gone.go'' \<notin> fst ` set (watched (config staleApp) demoTree)"
proof -
  have c: "config staleApp = config demoApp" by (simp add: staleApp_def)
  have 1: "fst (Walk ''.'' (checkForChangesFn (config staleApp)) demoTree
          (fileStates staleApp, False, [])) = OK"
    by (simp add: Walk_def checkForChangesFn_def staleApp_def demo_defs)
  have 2: "fileStates (fst (snd (checkForChanges demoTree staleApp))) ''gone.go'' = Some 1"
    by (simp add: checkForChanges_def Walk_def checkForChangesFn_def staleApp_def demo_defs)
  have 3: "''gone.go'' \<notin> fst ` set (watched (config staleApp) demoTree)"
    by (simp add: c demo_watched)
  from 1 2 3 show ?thesis by (simp add: domIff)
qed

text \<open>
  Claim C5, amended. A scan never deletes an entry. After a scan that completes (with a
  configuration that does not exclude the root), the keys of the index are the keys it
  had before the scan together with the paths of the files of the tree that pass the
  watch filter; so every such file is present, and after a completed scan from the
  empty index the keys are exactly those files.
\<close>

theorem index_keys_after_scan:
  assumes "\<not> excluded (ExcludeDirs (config app)) ''.''"
  shows "(fst (scanFiles tree app) = None \<longrightarrow>
            dom (fileStates (snd (scanFiles tree app))) =
              dom (fileStates app) \<union> fst ` set (watched (config app) tree))
       \<and> (fst (Walk ''.'' (checkForChangesFn (config app)) tree (fileStates app, False, [])) = OK
            \<longrightarrow> dom (fileStates (fst (snd (checkForChanges tree app)))) =
              dom (fileStates app) \<union> fst ` set (watched (config app) tree))"
proof (intro conjI impI)
  assume "fst (scanFiles tree app) = None"
  then have "snd (visits (config app) ''.'' tree) = watched (config app) tree"
    using assms by (simp add: visits_completed_scan)
  then show "dom (fileStates (snd (scanFiles tree app))) =
              dom (fileStates app) \<union> fst ` set (watched (config app) tree)"
    by (simp add: scanFiles_fileStates dom_fold_scanUpd)
next
  assume "fst (Walk ''.'' (checkForChangesFn (config app)) tree (fileStates app, False, [])) = OK"
  then have "snd (visits (config app) ''.'' tree) = watched (config app) tree"
    using visits_completed[OF assms] by (simp add: checkForChangesFn_visitFn)
  then show "dom (fileStates (fst (snd (checkForChanges tree app)))) =
              dom (fileStates app) \<union> fst ` set (watched (config app) tree)"
    by (simp add: checkForChanges_fileStates dom_fold_checkUpd)
qed

lemma demo_scan_ok: "fst (scanFiles demoTree (newApp (config demoApp))) = None"
  by (simp add: scanFiles_def Walk_def scanFilesFn_def demo_defs)

theorem index_keys_after_scan_witness:
  "\<not> excluded (ExcludeDirs (config demoApp)) ''.''
   \<and> fst (scanFiles demoTree (newApp (config demoApp))) = None
   \<and> dom (fileStates (snd (scanFiles demoTree (newApp (config demoApp)))))
       = {''main.go'', ''new.go''}
   \<and> fst (Walk ''.'' (checkForChangesFn (config staleApp)) demoTree
            (fileStates staleApp, False, [])) = OK
   \<and> dom (fileStates (fst (snd (checkForChanges demoTree staleApp))))
       = {''gone.go'', ''main.go'', ''new.go''}"
proof -
  have c: "config staleApp = config demoApp" by (simp add: staleApp_def)
  have c2: "config (newApp (config demoApp)) = config demoApp" by (simp add: newApp_def)
  have r2: "\<not> excluded (ExcludeDirs (config (newApp (config demoApp)))) ''.''"
    using demo_root by (simp add: c2)
  have r3: "\<not> excluded (ExcludeDirs (config staleApp)) ''.''"
    using demo_root by (simp add: c)
  have ok: "fst (Walk ''.'' (checkForChangesFn (config staleApp)) demoTree
            (fileStates staleApp, False, [])) = OK"
    by (simp add: Walk_def checkForChangesFn_def staleApp_def demo_defs)
  have a: "dom (fileStates (snd (scanFiles demoTree (newApp (config demoApp)))))
       = {''main.go'', ''new.go''}"
    using index_keys_after_scan[OF r2, of demoTree] demo_scan_ok
    by (simp add: c2 demo_watched newApp_def)
  have b: "dom (fileStates (fst (snd (checkForChanges demoTree staleApp))))
       = {''gone.go'', ''main.go'', ''new.go''}"
    using index_keys_after_scan[OF r3, of demoTree] ok
    by (auto simp add: c demo_watched staleApp_def)
  show ?thesis using demo_root demo_scan_ok ok a b by simp
qed

subsection \<open>A walk that fails\<close>

text \<open>
  Claim C6 as stated fails: the walk fails at the entry after \<^verbatim>\<open>main.go\<close>, the error is
  printed, and yet the call reports the change of \<^verbatim>\<open>main.go\<close> and keeps its new time.
\<close>

theorem failed_scan_keeps_results:
  "fst (Walk ''.'' (checkForChangesFn (config demoApp)) brokenTree
          (fileStates demoApp, False, [])) = Err LstatFailed
   \<and> fileStates demoApp ''main.go'' = Some 1
   \<and> checkForChanges brokenTree demoApp =
       (True, demoApp\<lparr>fileStates := [''main.go'' \<mapsto> 5]\<rparr>,
        [Print (FileChanged ''main.go''), Print (ScanFailed LstatFailed)])"
  by (simp add: checkForChanges_def Walk_def checkForChangesFn_def brokenTree_def demoApp_def
        newApp_def runWatcherConfig_def Join_def shouldWatch_def Ext_def)

lemma watchStep_Tick:
  "watchStep (Tick now tree) w =
     Some (w\<lparr>wapp := fst (snd (checkForChanges tree (wapp w))),
              hasChanges := hasChanges w \<or> fst (checkForChanges tree (wapp w)),
              debounce := (if fst (checkForChanges tree (wapp w)) \<and> \<not> hasChanges w
                           then Some (now + DebounceDelay (config (wapp w)))
                           else debounce w)\<rparr>,
           snd (snd (checkForChanges tree (wapp w))))"
  by (cases "checkForChanges tree (wapp w)")
     (use checkForChanges_config[of tree "wapp w"] in auto)

lemma fails_visits:
  "fails cfg p node = (\<exists>e. fst (visits cfg p node) = Err e)"
  "failsIn cfg p kids = (\<exists>e. fst (visitsIn cfg p kids) = Err e)"
proof (induction cfg p node and cfg p kids rule: visits_visitsIn.induct)
  case (6 cfg path k ks)
  obtain r xs where v: "visits cfg (Join path (name k)) k = (r, xs)" by force
  obtain r' ys where w: "visitsIn cfg path ks = (r', ys)" by force
  show ?case
  proof (cases r)
    case (Err e)
    then show ?thesis using 6(1) v by simp
  next
    case OK
    then show ?thesis using 6(1) 6(2)[OF v[symmetric] OK] v w by simp
  next
    case SkipDir
    then show ?thesis using 6(1) 6(3)[OF v[symmetric] SkipDir] v w by simp
  qed
qed simp_all

lemma name_upToFailure: "name (upToFailure cfg p k) = name k"
  by (cases k) simp_all

lemma visits_upToFailure:
  "snd (visits cfg p (upToFailure cfg p node)) = snd (visits cfg p node)
   \<and> (\<forall>e. fst (visits cfg p (upToFailure cfg p node)) \<noteq> Err e)"
  "snd (visitsIn cfg p (upToFailureIn cfg p kids)) = snd (visitsIn cfg p kids)
   \<and> (\<forall>e. fst (visitsIn cfg p (upToFailureIn cfg p kids)) \<noteq> Err e)"
proof (induction cfg p node and cfg p kids rule: upToFailure_upToFailureIn.induct)
  case (1 cfg path n mt kids)
  then show ?case by simp
next
  case (6 cfg path k ks)
  let ?J = "Join path (name k)"
  show ?case
  proof (cases "fails cfg ?J k")
    case True
    then obtain e where e: "fst (visits cfg ?J k) = Err e" using fails_visits(1) by blast
    then have whole: "visitsIn cfg path (k # ks) = (Err e, snd (visits cfg ?J k))"
      by (cases "visits cfg ?J k") simp
    show ?thesis
    proof (cases k)
      case (Dir n mt kids)
      then have cut: "upToFailureIn cfg path (k # ks) = [upToFailure cfg ?J k]"
        using True by simp
      have ih: "snd (visits cfg ?J (upToFailure cfg ?J k)) = snd (visits cfg ?J k)
                \<and> (\<forall>e. fst (visits cfg ?J (upToFailure cfg ?J k)) \<noteq> Err e)"
        using 6(1)[OF True Dir] Dir by simp
      obtain r xs where v: "visits cfg ?J (upToFailure cfg ?J k) = (r, xs)" by force
      have "visitsIn cfg path [upToFailure cfg ?J k] = (OK, xs)"
        using v ih by (cases r) (simp_all add: name_upToFailure)
      then show ?thesis using ih v whole by (simp only: cut) simp
    next
      case (File n mt)
      then show ?thesis using True by simp
    next
      case (NoStat n)
      then show ?thesis using True by simp
    next
      case (NoRead n mt)
      then show ?thesis using True by simp
    qed
  next
    case False
    then have cut: "upToFailureIn cfg path (k # ks) = k # upToFailureIn cfg path ks" by simp
    have ne: "\<forall>e. fst (visits cfg ?J k) \<noteq> Err e" using False fails_visits(1) by blast
    obtain r xs where v: "visits cfg ?J k = (r, xs)" by force
    obtain r' ys where w: "visitsIn cfg path ks = (r', ys)" by force
    obtain r'' zs where u: "visitsIn cfg path (upToFailureIn cfg path ks) = (r'', zs)" by force
    have ih: "zs = ys \<and> (\<forall>e. r'' \<noteq> Err e)" using 6(2)[OF False] w u by simp
    show ?thesis using ne v w u ih by (cases r) (simp_all only: cut, simp_all)
  qed
qed simp_all

lemma broken_walk_fails:
  "fst (Walk ''.'' (checkForChangesFn (config demoApp)) brokenTree
          (fileStates demoApp, False, [])) = Err LstatFailed"
  by (simp add: Walk_def checkForChangesFn_def brokenTree_def demoApp_def
        newApp_def runWatcherConfig_def Join_def shouldWatch_def Ext_def)


lemma upToFailureIn_at_entry:
  assumes "\<not> failsIn cfg p pre" and "fails cfg (Join p (name bad)) bad"
  shows "upToFailureIn cfg p (pre @ bad # post) =
           pre @ (case bad of Dir _ _ _ \<Rightarrow> [upToFailure cfg (Join p (name bad)) bad] | _ \<Rightarrow> [])"
  using assms by (induction pre) simp_all

lemma files_upToFailure:
  "prefix (files p (upToFailure cfg p node)) (files p node)"
  "prefix (filesIn p (upToFailureIn cfg p kids)) (filesIn p kids)"
proof (induction cfg p node and cfg p kids rule: upToFailure_upToFailureIn.induct)
  case (6 cfg path k ks)
  show ?case
  proof (cases "fails cfg (Join path (name k)) k")
    case True
    show ?thesis
    proof (cases k)
      case (Dir n mt kids)
      then have "prefix (files (Join path (name k)) (upToFailure cfg (Join path (name k)) k))
                   (files (Join path (name k)) k)"
        using 6(1)[OF True Dir] by simp
      then show ?thesis using True Dir
        by (simp add: name_upToFailure del: upToFailure.simps files.simps)
    qed (use True in simp_all)
  next
    case False
    then show ?thesis using 6(2) by simp
  qed
qed simp_all

lemma Walk_upToFailure:
  "fst (Walk ''.'' (checkForChangesFn cfg) (upToFailure cfg ''.'' tree) s) = OK"
  using visits_upToFailure(1)[of cfg "''.''" tree]
  by (simp add: checkForChangesFn_visitFn Walk_visits split: ret.splits)

lemma checkForChanges_upToFailure:
  assumes "fst (visits (config app) ''.'' tree) = Err e"
  shows "checkForChanges tree app =
           (fst (checkForChanges (upToFailure (config app) ''.'' tree) app),
            fst (snd (checkForChanges (upToFailure (config app) ''.'' tree) app)),
            snd (snd (checkForChanges (upToFailure (config app) ''.'' tree) app))
              @ [Print (ScanFailed e)])"
proof -
  let ?cut = "upToFailure (config app) ''.'' tree"
  have same: "snd (visits (config app) ''.'' ?cut) = snd (visits (config app) ''.'' tree)"
    and ok: "\<forall>e. fst (visits (config app) ''.'' ?cut) \<noteq> Err e"
    using visits_upToFailure(1)[of "config app" "''.''" tree] by simp_all
  have tail: "(case fst (visits (config app) ''.'' ?cut) of
                 Err e \<Rightarrow> [Print (ScanFailed e)] | _ \<Rightarrow> []) = []"
    using ok by (simp split: ret.splits)
  show ?thesis
    by (simp add: checkForChanges_fold[of tree] checkForChanges_fold[of ?cut] same tail assms
          split: prod.splits)
qed

lemma unreadable_fails: "unreadable bad \<Longrightarrow> fails cfg p bad"
  by (cases bad) simp_all

lemma unreadable_cut: "unreadable bad \<Longrightarrow> (case bad of Dir _ _ _ \<Rightarrow> [x] | _ \<Rightarrow> []) = []"
  by (cases bad) simp_all

text \<open>
  Claim C6, amended. When the walk of a poll scan fails, the scan stops at the failing
  entry and the failure is not fatal. The call returns what a scan of the tree cut off
  at the failure returns, a scan that completes: the same report of a change, the same
  index, the same lines printed, and after them the error. So the inserts and updates
  of the watched files before the failing entry are kept and a change among them is
  still reported, and nothing after the failing entry is visited: when the failing entry
  is an entry of the root that is unreadable by itself and the entries before it can be
  walked, the call returns what the scan of those entries alone returns. The files of
  the cut tree are an initial part of the files of the tree in walk order. The watch
  loop goes on with its next input.
\<close>

theorem failed_scan_keeps_what_it_passed:
  assumes "fst (Walk ''.'' (checkForChangesFn (config (wapp w))) tree
               (fileStates (wapp w), False, [])) = Err e"
  shows "fst (Walk ''.'' (checkForChangesFn (config (wapp w)))
               (upToFailure (config (wapp w)) ''.'' tree) (fileStates (wapp w), False, [])) = OK
       \<and> checkForChanges tree (wapp w) =
           (fst (checkForChanges (upToFailure (config (wapp w)) ''.'' tree) (wapp w)),
            fst (snd (checkForChanges (upToFailure (config (wapp w)) ''.'' tree) (wapp w))),
            snd (snd (checkForChanges (upToFailure (config (wapp w)) ''.'' tree) (wapp w)))
              @ [Print (ScanFailed e)])
       \<and> prefix (files ''.'' (upToFailure (config (wapp w)) ''.'' tree)) (files ''.'' tree)
       \<and> (tree = Dir n mt (pre @ bad # post) \<and> unreadable bad
            \<and> fst (Walk ''.'' (checkForChangesFn (config (wapp w))) (Dir n mt pre)
                    (fileStates (wapp w), False, [])) = OK
          \<longrightarrow> checkForChanges tree (wapp w) =
                (fst (checkForChanges (Dir n mt pre) (wapp w)),
                 fst (snd (checkForChanges (Dir n mt pre) (wapp w))),
                 snd (snd (checkForChanges (Dir n mt pre) (wapp w))) @ [Print (ScanFailed e)]))
       \<and> (\<exists>w'. watchStep (Tick now tree) w = Some (w', snd (snd (checkForChanges tree (wapp w))))
            \<and> wapp w' = fst (snd (checkForChanges tree (wapp w)))
            \<and> watchFiles (Tick now tree # rest) w =
                (fst (watchFiles rest w'),
                 snd (snd (checkForChanges tree (wapp w))) @ snd (watchFiles rest w')))"
proof -
  let ?app = "wapp w"
  let ?cfg = "config ?app"
  let ?cut = "upToFailure ?cfg ''.'' tree"
  have e: "fst (visits ?cfg ''.'' tree) = Err e"
    using assms by (simp add: checkForChanges_walk_ret split: ret.splits)
  have 1: "fst (Walk ''.'' (checkForChangesFn ?cfg) ?cut (fileStates ?app, False, [])) = OK"
    by (rule Walk_upToFailure)
  have 2: "checkForChanges tree ?app =
           (fst (checkForChanges ?cut ?app), fst (snd (checkForChanges ?cut ?app)),
            snd (snd (checkForChanges ?cut ?app)) @ [Print (ScanFailed e)])"
    using e by (rule checkForChanges_upToFailure)
  have 3: "prefix (files ''.'' ?cut) (files ''.'' tree)" by (rule files_upToFailure(1))
  have 4: "checkForChanges tree ?app =
                (fst (checkForChanges (Dir n mt pre) ?app),
                 fst (snd (checkForChanges (Dir n mt pre) ?app)),
                 snd (snd (checkForChanges (Dir n mt pre) ?app)) @ [Print (ScanFailed e)])"
    if t: "tree = Dir n mt (pre @ bad # post)" and b: "unreadable bad"
      and ok: "fst (Walk ''.'' (checkForChangesFn ?cfg) (Dir n mt pre)
                    (fileStates ?app, False, [])) = OK"
  proof -
    have root: "\<not> excluded (ExcludeDirs ?cfg) ''.''"
      using e t by (auto split: if_splits)
    have "\<forall>e. fst (visits ?cfg ''.'' (Dir n mt pre)) \<noteq> Err e"
      using ok by (auto simp: checkForChanges_walk_ret split: ret.splits)
    then have "\<not> fails ?cfg ''.'' (Dir n mt pre)" using fails_visits(1) by blast
    then have pre: "\<not> failsIn ?cfg ''.'' pre" using root by simp
    have "upToFailureIn ?cfg ''.'' (pre @ bad # post) = pre"
      using upToFailureIn_at_entry[OF pre unreadable_fails[OF b], of post]
      by (simp add: unreadable_cut[OF b])
    then have "?cut = Dir n mt pre" using t root by simp
    then show ?thesis using 2 by simp
  qed
  define w' where "w' = w\<lparr>wapp := fst (snd (checkForChanges tree ?app)),
              hasChanges := hasChanges w \<or> fst (checkForChanges tree ?app),
              debounce := (if fst (checkForChanges tree ?app) \<and> \<not> hasChanges w
                           then Some (now + DebounceDelay ?cfg)
                           else debounce w)\<rparr>"
  have s: "watchStep (Tick now tree) w = Some (w', snd (snd (checkForChanges tree ?app)))"
    unfolding w'_def by (rule watchStep_Tick)
  have a: "wapp w' = fst (snd (checkForChanges tree ?app))" by (simp add: w'_def)
  have r: "watchFiles (Tick now tree # rest) w =
                (fst (watchFiles rest w'),
                 snd (snd (checkForChanges tree ?app)) @ snd (watchFiles rest w'))"
    using s by (simp del: watchStep.simps split: prod.splits)
  have 5: "\<exists>w'. watchStep (Tick now tree) w = Some (w', snd (snd (checkForChanges tree ?app)))
            \<and> wapp w' = fst (snd (checkForChanges tree ?app))
            \<and> watchFiles (Tick now tree # rest) w =
                (fst (watchFiles rest w'),
                 snd (snd (checkForChanges tree ?app)) @ snd (watchFiles rest w'))"
    using s a r by blast
  from 1 2 3 4 5 show ?thesis by blast
qed

lemma nested_walk_fails:
  "fst (Walk ''.'' (checkForChangesFn (config demoApp)) nestedBrokenTree
          (fileStates demoApp, False, [])) = Err ReadDirFailed"
  by (simp add: Walk_def checkForChangesFn_def nestedBrokenTree_def demoApp_def
        newApp_def runWatcherConfig_def Join_def shouldWatch_def Ext_def)

theorem failed_scan_keeps_what_it_passed_witness:
  "fst (Walk ''.'' (checkForChangesFn (config (wapp (newWatcher demoApp)))) brokenTree
          (fileStates (wapp (newWatcher demoApp)), False, [])) = Err LstatFailed
   \<and> checkForChanges brokenTree (wapp (newWatcher demoApp)) =
       (True, demoApp\<lparr>fileStates := [''main.go'' \<mapsto> 5]\<rparr>,
        [Print (FileChanged ''main.go''), Print (ScanFailed LstatFailed)])
   \<and> watchStep (Tick 0 brokenTree) (newWatcher demoApp) \<noteq> None
   \<and> fst (Walk ''.'' (checkForChangesFn (config (wapp (newWatcher demoApp)))) nestedBrokenTree
          (fileStates (wapp (newWatcher demoApp)), False, [])) = Err ReadDirFailed
   \<and> checkForChanges nestedBrokenTree (wapp (newWatcher demoApp)) =
       (True, demoApp\<lparr>fileStates := [''main.go'' \<mapsto> 5, ''pkg/a.go'' \<mapsto> 4]\<rparr>,
        [Print (FileChanged ''main.go''), Print (ScanFailed ReadDirFailed)])"
proof -
  have a: "wapp (newWatcher demoApp) = demoApp" by (simp add: newWatcher_def)
  have f1: "fst (Walk ''.'' (checkForChangesFn (config (wapp (newWatcher demoApp)))) brokenTree
            (fileStates (wapp (newWatcher demoApp)), False, [])) = Err LstatFailed"
    using broken_walk_fails by (simp add: a)
  have f2: "fst (Walk ''.'' (checkForChangesFn (config (wapp (newWatcher demoApp)))) nestedBrokenTree
            (fileStates (wapp (newWatcher demoApp)), False, [])) = Err ReadDirFailed"
    using nested_walk_fails by (simp add: a)
  note one = failed_scan_keeps_what_it_passed[OF f1, of "''.''" 0 "[File ''main.go'' 5]"
      "NoStat ''pkg''" "[File ''zeta.go'' 7]" 0 "[]"]
  note two = failed_scan_keeps_what_it_passed[OF f2, of "''.''" 0 "[]" "NoStat ''x''" "[]" 0 "[]"]
  have pre: "checkForChanges (Dir ''.'' 0 [File ''main.go'' 5]) demoApp =
               (True, demoApp\<lparr>fileStates := [''main.go'' \<mapsto> 5]\<rparr>,
                [Print (FileChanged ''main.go'')])"
    by (simp add: checkForChanges_def Walk_def checkForChangesFn_def demoApp_def
          newApp_def runWatcherConfig_def Join_def shouldWatch_def Ext_def)
  have preok: "fst (Walk ''.'' (checkForChangesFn (config demoApp)) (Dir ''.'' 0 [File ''main.go'' 5])
                 (fileStates demoApp, False, [])) = OK"
    by (simp add: Walk_def checkForChangesFn_def demoApp_def
          newApp_def runWatcherConfig_def Join_def shouldWatch_def Ext_def)
  have hyp: "brokenTree = Dir ''.'' 0 ([File ''main.go'' 5] @ NoStat ''pkg'' # [File ''zeta.go'' 7])
       \<and> unreadable (NoStat ''pkg'')
       \<and> fst (Walk ''.'' (checkForChangesFn (config (wapp (newWatcher demoApp))))
                (Dir ''.'' 0 [File ''main.go'' 5])
                (fileStates (wapp (newWatcher demoApp)), False, [])) = OK"
    using preok by (simp add: a brokenTree_def)
  have "checkForChanges brokenTree (wapp (newWatcher demoApp)) =
          (fst (checkForChanges (Dir ''.'' 0 [File ''main.go'' 5]) (wapp (newWatcher demoApp))),
           fst (snd (checkForChanges (Dir ''.'' 0 [File ''main.go'' 5]) (wapp (newWatcher demoApp)))),
           snd (snd (checkForChanges (Dir ''.'' 0 [File ''main.go'' 5]) (wapp (newWatcher demoApp))))
             @ [Print (ScanFailed LstatFailed)])"
    using one[THEN conjunct2, THEN conjunct2, THEN conjunct2, THEN conjunct1] hyp by (rule mp)
  then have 1: "checkForChanges brokenTree (wapp (newWatcher demoApp)) =
       (True, demoApp\<lparr>fileStates := [''main.go'' \<mapsto> 5]\<rparr>,
        [Print (FileChanged ''main.go''), Print (ScanFailed LstatFailed)])"
    by (simp only: a pre fst_conv snd_conv append.simps)
  obtain w' where "watchStep (Tick 0 brokenTree) (newWatcher demoApp) =
                     Some (w', snd (snd (checkForChanges brokenTree (wapp (newWatcher demoApp)))))"
    using one[THEN conjunct2, THEN conjunct2, THEN conjunct2, THEN conjunct2] by blast
  then have 2: "watchStep (Tick 0 brokenTree) (newWatcher demoApp) \<noteq> None"
    by (simp del: watchStep.simps)
  have cut: "upToFailure (config demoApp) ''.'' nestedBrokenTree =
               Dir ''.'' 0 [File ''main.go'' 5, Dir ''pkg'' 0 [File ''a.go'' 4]]"
    by (simp add: nestedBrokenTree_def demoApp_def newApp_def runWatcherConfig_def Join_def)
  have nested: "checkForChanges (Dir ''.'' 0 [File ''main.go'' 5, Dir ''pkg'' 0 [File ''a.go'' 4]]) demoApp =
               (True, demoApp\<lparr>fileStates := [''main.go'' \<mapsto> 5, ''pkg/a.go'' \<mapsto> 4]\<rparr>,
                [Print (FileChanged ''main.go'')])"
    by (simp add: checkForChanges_def Walk_def checkForChangesFn_def demoApp_def
          newApp_def runWatcherConfig_def Join_def shouldWatch_def Ext_def)
  have 3: "checkForChanges nestedBrokenTree (wapp (newWatcher demoApp)) =
       (True, demoApp\<lparr>fileStates := [''main.go'' \<mapsto> 5, ''pkg/a.go'' \<mapsto> 4]\<rparr>,
        [Print (FileChanged ''main.go''), Print (ScanFailed ReadDirFailed)])"
    using two[THEN conjunct2, THEN conjunct1]
    by (simp only: a cut nested fst_conv snd_conv append.simps)
  from f1 1 2 f2 3 show ?thesis by simp
qed

subsection \<open>Excluded entries\<close>

lemma name_prune: "name (prune cfg p k) = name k"
  by (cases k) simp_all

lemma visits_excluded:
  "excluded (ExcludeDirs cfg) p \<Longrightarrow> visits cfg p (File n mt) = (OK, [])"
  "excluded (ExcludeDirs cfg) p \<Longrightarrow> visits cfg p (Dir n mt kids) = (SkipDir, [])"
  by (simp_all add: eligible_def)

lemma visits_prune:
  "visits cfg p (prune cfg p node) = visits cfg p node"
  "visitsIn cfg p (pruneIn cfg p kids) = visitsIn cfg p kids"
proof (induction cfg p node and cfg p kids rule: prune_pruneIn.induct)
  case (6 cfg path k ks)
  show ?case
  proof (cases "(case k of File _ _ \<Rightarrow> True | Dir _ _ _ \<Rightarrow> True | _ \<Rightarrow> False)
         \<and> excluded (ExcludeDirs cfg) (Join path (name k))")
    case True
    then have "visits cfg (Join path (name k)) k = (OK, []) \<or>
               visits cfg (Join path (name k)) k = (SkipDir, [])"
      by (cases k) (simp_all add: eligible_def)
    then have "visitsIn cfg path (k # ks) = visitsIn cfg path ks"
      by (auto split: prod.splits)
    then show ?thesis using True 6(1) by simp
  next
    case False
    then have pr: "pruneIn cfg path (k # ks) =
                     prune cfg (Join path (name k)) k # pruneIn cfg path ks"
      by simp
    have "visitsIn cfg path (prune cfg (Join path (name k)) k # pruneIn cfg path ks) =
            visitsIn cfg path (k # ks)"
      by (simp only: visitsIn.simps name_prune 6(2)[OF False] 6(3)[OF False])
    then show ?thesis by (simp only: pr)
  qed
qed simp_all

lemma fold_scanUpd_other: "p \<notin> fst ` set xs \<Longrightarrow> fold scanUpd xs fs p = fs p"
  by (induction xs arbitrary: fs) (auto simp: scanUpd_def)

lemma checkUpd_other: "p \<noteq> fst f \<Longrightarrow> fst (checkUpd f s) p = fst s p"
  by (cases s) (auto simp: checkUpd_def split: option.splits)

lemma fold_checkUpd_other: "p \<notin> fst ` set xs \<Longrightarrow> fst (fold checkUpd xs s) p = fst s p"
  by (induction xs arbitrary: s) (auto simp: checkUpd_other)

lemma visits_not_excluded:
  assumes "excluded (ExcludeDirs cfg) p"
  shows "p \<notin> fst ` set (snd (visits cfg ''.'' tree))"
proof
  assume "p \<in> fst ` set (snd (visits cfg ''.'' tree))"
  then obtain f where f: "f \<in> set (snd (visits cfg ''.'' tree))" "fst f = p" by auto
  then have "f \<in> set (watched cfg tree)" using visits_set by blast
  then have "eligible cfg (fst f)" by (auto simp: watched_def)
  then show False using assms f(2) by (simp add: eligible_def)
qed

text \<open>
  Claim C4. In both walk functions the exclusion test comes before the extension
  filter: an entry whose relative path holds an excluded fragment leaves the state as it
  is, whatever its extension, and a directory among them makes the function return
  \<^verbatim>\<open>SkipDir\<close>, so that \<^verbatim>\<open>Walk\<close> does not enter it: the walk of such a directory changes
  nothing, whatever is in it. Hence neither scan ever inserts or updates the entry of a
  path that holds an excluded fragment, and removing every excluded file and directory
  from the tree changes neither what a scan records nor what it reports.
\<close>

theorem excluded_entries_are_skipped:
  assumes "excluded (ExcludeDirs (config app)) path"
  shows "scanFilesFn (config app) path (Entry info) fs =
           (if IsDir info then SkipDir else OK, fs)
       \<and> checkForChangesFn (config app) path (Entry info) s =
           (if IsDir info then SkipDir else OK, s)
       \<and> walk (scanFilesFn (config app)) path (Dir n mt kids) fs = (SkipDir, fs)
       \<and> walk (checkForChangesFn (config app)) path (Dir n mt kids) s = (SkipDir, s)
       \<and> fileStates (snd (scanFiles tree app)) path = fileStates app path
       \<and> fileStates (fst (snd (checkForChanges tree app))) path = fileStates app path
       \<and> scanFiles (prune (config app) ''.'' tree) app = scanFiles tree app
       \<and> checkForChanges (prune (config app) ''.'' tree) app = checkForChanges tree app"
proof -
  have 1: "scanFilesFn (config app) path (Entry info) fs =
           (if IsDir info then SkipDir else OK, fs)"
    using assms by (simp add: scanFilesFn_def)
  have 2: "checkForChangesFn (config app) path (Entry info) s =
           (if IsDir info then SkipDir else OK, s)"
    using assms by (simp add: checkForChangesFn_def)
  have 3: "walk (scanFilesFn (config app)) path (Dir n mt kids) fs = (SkipDir, fs)"
    using assms by (simp add: scanFilesFn_def)
  have 4: "walk (checkForChangesFn (config app)) path (Dir n mt kids) s = (SkipDir, s)"
    using assms by (simp add: checkForChangesFn_def)
  have notin: "path \<notin> fst ` set (snd (visits (config app) ''.'' tree))"
    using assms by (rule visits_not_excluded)
  have 5: "fileStates (snd (scanFiles tree app)) path = fileStates app path"
    using notin by (simp add: scanFiles_fileStates fold_scanUpd_other)
  have 6: "fileStates (fst (snd (checkForChanges tree app))) path = fileStates app path"
    using notin by (simp add: checkForChanges_fileStates fold_checkUpd_other)
  have 7: "scanFiles (prune (config app) ''.'' tree) app = scanFiles tree app"
    by (simp add: scanFiles_fold visits_prune)
  have 8: "checkForChanges (prune (config app) ''.'' tree) app = checkForChanges tree app"
    by (simp add: checkForChanges_fold visits_prune)
  from 1 2 3 4 5 6 7 8 show ?thesis by simp
qed

lemma demo_vendor_excluded: "excluded (ExcludeDirs (config demoApp)) ''vendor/dep.go''"
  by (simp add: demoApp_def newApp_def runWatcherConfig_def)

theorem excluded_entries_are_skipped_witness:
  "excluded (ExcludeDirs (config demoApp)) ''vendor/dep.go''
   \<and> shouldWatch (config demoApp) ''vendor/dep.go''
   \<and> checkForChangesFn (config demoApp) ''vendor/dep.go''
         (Entry \<lparr>IsDir = False, ModTime = 9\<rparr>) (Map.empty, False, [])
       = (OK, (Map.empty, False, []))
   \<and> fileStates (snd (scanFiles demoTree demoApp)) ''vendor/dep.go'' = None
   \<and> fileStates (fst (snd (checkForChanges demoTree demoApp))) ''vendor/dep.go'' = None
   \<and> checkForChanges (Dir ''.'' 0 [File ''main.go'' 5, File ''new.go'' 3]) demoApp
       = checkForChanges demoTree demoApp"
proof -
  note main = excluded_entries_are_skipped[OF demo_vendor_excluded,
      of "\<lparr>IsDir = False, ModTime = 9\<rparr>" Map.empty "(Map.empty, False, [])"
         "''vendor''" 0 "[]" demoTree]
  have w: "shouldWatch (config demoApp) ''vendor/dep.go''"
    by (simp add: demo_defs)
  have p: "prune (config demoApp) ''.'' demoTree = Dir ''.'' 0 [File ''main.go'' 5, File ''new.go'' 3]"
    by (simp add: demo_defs)
  have fs0: "fileStates demoApp ''vendor/dep.go'' = None" by (simp add: demoApp_def newApp_def)
  show ?thesis using main demo_vendor_excluded w by (simp add: p fs0)
qed

section \<open>Properties of the process supervisor\<close>

text \<open>
  Claim C8. With a process handle held, \<^verbatim>\<open>stopProcess\<close> first sends the termination
  signal, calls \<^verbatim>\<open>Kill\<close> exactly when the signal could not be delivered, then waits for
  the process, and returns with the handle cleared; the wait is the last thing it does.
  With no handle held it does nothing, so a second stop right after a stop does nothing.
\<close>

theorem stopProcess_graceful_then_forced:
  "(process app = Some p \<longrightarrow>
      snd (stopProcess sigFails app) =
        [Print (Stopping p), Signal p] @ (if sigFails then [Kill p] else []) @ [Wait p]
      \<and> (Kill p \<in> set (snd (stopProcess sigFails app))) = sigFails
      \<and> last (snd (stopProcess sigFails app)) = Wait p
      \<and> fst (stopProcess sigFails app) = app\<lparr>process := None\<rparr>)
   \<and> (process app = None \<longrightarrow> stopProcess sigFails app = (app, []))
   \<and> stopProcess sigFails' (fst (stopProcess sigFails app)) = (fst (stopProcess sigFails app), [])"
proof (cases "process app")
  case None
  then have "stopProcess sigFails app = (app, [])" by (simp add: stopProcess_def)
  moreover from this None have "stopProcess sigFails' (fst (stopProcess sigFails app)) = (app, [])"
    by (simp add: stopProcess_def)
  ultimately show ?thesis using None by simp
next
  case (Some q)
  then have run: "stopProcess sigFails app =
      (app\<lparr>process := None\<rparr>,
       [Print (Stopping q), Signal q] @ (if sigFails then [Kill q] else []) @ [Wait q])"
    by (simp add: stopProcess_def)
  have cleared: "process (app\<lparr>process := None\<rparr>) = None" by simp
  have again: "stopProcess sigFails' (app\<lparr>process := None\<rparr>) = (app\<lparr>process := None\<rparr>, [])"
    using cleared by (simp add: stopProcess_def)
  show ?thesis using Some by (simp add: run again)
qed


theorem stopProcess_graceful_then_forced_witness:
  "process runningApp = Some 42
   \<and> snd (stopProcess False runningApp) = [Print (Stopping 42), Signal 42, Wait 42]
   \<and> snd (stopProcess True runningApp) = [Print (Stopping 42), Signal 42, Kill 42, Wait 42]
   \<and> process (fst (stopProcess True runningApp)) = None
   \<and> process demoApp = None
   \<and> stopProcess True demoApp = (demoApp, [])"
proof -
  have p: "process runningApp = Some 42" by (simp add: runningApp_def)
  have q: "process demoApp = None" by (simp add: demoApp_def newApp_def)
  show ?thesis
    using stopProcess_graceful_then_forced[of runningApp 42 False]
      stopProcess_graceful_then_forced[of runningApp 42 True]
      stopProcess_graceful_then_forced[of demoApp 0 True] p q
    by simp
qed


section \<open>Properties of the layout detection\<close>

lemma Join_cmd: "Join (Join ''cmd'' nm) ''main.go'' = ''cmd/'' @ nm @ ''/main.go''"
  by (simp add: Join_def slash_not_dot)

lemma cmdSubdir_first:
  assumes "\<forall>e \<in> set before. \<not> (snd e \<and> Stat fs (''cmd/'' @ fst e @ ''/main.go''))"
    and "Stat fs (''cmd/'' @ nm @ ''/main.go'')"
  shows "cmdSubdir fs (before @ (nm, True) # rest) =
           Some (''go build -o ./tmp/main ./cmd/'' @ nm, ''Standard layout (cmd/'' @ nm @ ''/)'')"
  using assms by (induction before) (auto simp: Join_cmd)

lemma cmdSubdir_none:
  "(cmdSubdir fs entries = None) =
     (\<forall>e \<in> set entries. \<not> (snd e \<and> Stat fs (''cmd/'' @ fst e @ ''/main.go'')))"
proof (induction entries)
  case Nil
  then show ?case by simp
next
  case (Cons e entries)
  obtain n d where e: "e = (n, d)" by force
  show ?case unfolding e using Cons.IH by (simp add: Join_cmd)
qed

text \<open>
  Claim C9. \<^verbatim>\<open>detectProjectStructure\<close> tests \<^verbatim>\<open>cmd/api/main.go\<close>, then \<^verbatim>\<open>cmd/main.go\<close>,
  then \<^verbatim>\<open>main.go\<close>, then the entries of \<^verbatim>\<open>cmd\<close> in listing order, taking the first
  directory that holds a \<^verbatim>\<open>main.go\<close>, and falls back to building the current directory
  when \<^verbatim>\<open>cmd\<close> cannot be listed or no entry qualifies.
\<close>

theorem detectProjectStructure_order:
  "(Stat fs ''cmd/api/main.go'' \<longrightarrow>
      detectProjectStructure fs =
        (''go build -o ./tmp/main ./cmd/api'', ''Standard layout (cmd/api/)''))
   \<and> (\<not> Stat fs ''cmd/api/main.go'' \<and> Stat fs ''cmd/main.go'' \<longrightarrow>
      detectProjectStructure fs =
        (''go build -o ./tmp/main ./cmd'', ''Standard layout (cmd/)''))
   \<and> (\<not> Stat fs ''cmd/api/main.go'' \<and> \<not> Stat fs ''cmd/main.go'' \<and> Stat fs ''main.go'' \<longrightarrow>
      detectProjectStructure fs =
        (''go build -o ./tmp/main .'', ''Simple layout (root main.go)''))
   \<and> (\<not> Stat fs ''cmd/api/main.go'' \<and> \<not> Stat fs ''cmd/main.go'' \<and> \<not> Stat fs ''main.go''
       \<and> ReadDir fs ''cmd'' = Some (before @ (nm, True) # rest)
       \<and> (\<forall>e \<in> set before. \<not> (snd e \<and> Stat fs (''cmd/'' @ fst e @ ''/main.go'')))
       \<and> Stat fs (''cmd/'' @ nm @ ''/main.go'') \<longrightarrow>
      detectProjectStructure fs =
        (''go build -o ./tmp/main ./cmd/'' @ nm, ''Standard layout (cmd/'' @ nm @ ''/)''))
   \<and> (\<not> Stat fs ''cmd/api/main.go'' \<and> \<not> Stat fs ''cmd/main.go'' \<and> \<not> Stat fs ''main.go''
       \<and> (case ReadDir fs ''cmd'' of
             None \<Rightarrow> True
           | Some entries \<Rightarrow>
               \<forall>e \<in> set entries. \<not> (snd e \<and> Stat fs (''cmd/'' @ fst e @ ''/main.go''))) \<longrightarrow>
      detectProjectStructure fs =
        (''go build -o ./tmp/main .'', ''Fallback (current directory)''))"
proof (intro conjI impI)
  assume "\<not> Stat fs ''cmd/api/main.go'' \<and> \<not> Stat fs ''cmd/main.go'' \<and> \<not> Stat fs ''main.go''
       \<and> ReadDir fs ''cmd'' = Some (before @ (nm, True) # rest)
       \<and> (\<forall>e \<in> set before. \<not> (snd e \<and> Stat fs (''cmd/'' @ fst e @ ''/main.go'')))
       \<and> Stat fs (''cmd/'' @ nm @ ''/main.go'')"
  then show "detectProjectStructure fs =
        (''go build -o ./tmp/main ./cmd/'' @ nm, ''Standard layout (cmd/'' @ nm @ ''/)'')"
    using cmdSubdir_first[of before fs nm rest] by (simp add: detectProjectStructure_def)
next
  assume a: "\<not> Stat fs ''cmd/api/main.go'' \<and> \<not> Stat fs ''cmd/main.go'' \<and> \<not> Stat fs ''main.go''
       \<and> (case ReadDir fs ''cmd'' of
             None \<Rightarrow> True
           | Some entries \<Rightarrow>
               \<forall>e \<in> set entries. \<not> (snd e \<and> Stat fs (''cmd/'' @ fst e @ ''/main.go'')))"
  show "detectProjectStructure fs = (''go build -o ./tmp/main .'', ''Fallback (current directory)'')"
  proof (cases "ReadDir fs ''cmd''")
    case None
    then show ?thesis using a by (simp add: detectProjectStructure_def)
  next
    case (Some entries)
    then have "cmdSubdir fs entries = None" using a by (simp add: cmdSubdir_none)
    then show ?thesis using a Some by (simp add: detectProjectStructure_def)
  qed
qed (simp_all add: detectProjectStructure_def)

theorem detectProjectStructure_order_witness:
  "detectProjectStructure (fsWith [''cmd/api/main.go'', ''main.go''] (Some [(''api'', True)])) =
     (''go build -o ./tmp/main ./cmd/api'', ''Standard layout (cmd/api/)'')
   \<and> detectProjectStructure (fsWith [''cmd/main.go''] (Some [(''main.go'', False)])) =
     (''go build -o ./tmp/main ./cmd'', ''Standard layout (cmd/)'')
   \<and> detectProjectStructure (fsWith [''main.go''] None) =
     (''go build -o ./tmp/main .'', ''Simple layout (root main.go)'')
   \<and> detectProjectStructure
        (fsWith [''cmd/server/main.go'', ''cmd/worker/main.go'']
           (Some [(''README.md'', False), (''lib'', True), (''server'', True), (''worker'', True)])) =
     (''go build -o ./tmp/main ./cmd/server'', ''Standard layout (cmd/server/)'')
   \<and> detectProjectStructure (fsWith [''go.mod''] None) =
     (''go build -o ./tmp/main .'', ''Fallback (current directory)'')"
proof -
  have 1: "detectProjectStructure (fsWith [''cmd/api/main.go'', ''main.go''] (Some [(''api'', True)])) =
     (''go build -o ./tmp/main ./cmd/api'', ''Standard layout (cmd/api/)'')"
    using detectProjectStructure_order[of "fsWith [''cmd/api/main.go'', ''main.go''] (Some [(''api'', True)])"]
    by (simp add: fsWith_def)
  have 2: "detectProjectStructure (fsWith [''cmd/main.go''] (Some [(''main.go'', False)])) =
     (''go build -o ./tmp/main ./cmd'', ''Standard layout (cmd/)'')"
    using detectProjectStructure_order[of "fsWith [''cmd/main.go''] (Some [(''main.go'', False)])"]
    by (simp add: fsWith_def)
  have 3: "detectProjectStructure (fsWith [''main.go''] None) =
     (''go build -o ./tmp/main .'', ''Simple layout (root main.go)'')"
    using detectProjectStructure_order[of "fsWith [''main.go''] None"]
    by (simp add: fsWith_def)
  have 4: "detectProjectStructure
        (fsWith [''cmd/server/main.go'', ''cmd/worker/main.go'']
           (Some [(''README.md'', False), (''lib'', True), (''server'', True), (''worker'', True)])) =
     (''go build -o ./tmp/main ./cmd/server'', ''Standard layout (cmd/server/)'')"
    using detectProjectStructure_order[of "fsWith [''cmd/server/main.go'', ''cmd/worker/main.go'']
           (Some [(''README.md'', False), (''lib'', True), (''server'', True), (''worker'', True)])"
           "[(''README.md'', False), (''lib'', True)]" "''server''" "[(''worker'', True)]"]
    by (simp add: fsWith_def)
  have 5: "detectProjectStructure (fsWith [''go.mod''] None) =
     (''go build -o ./tmp/main .'', ''Fallback (current directory)'')"
    using detectProjectStructure_order[of "fsWith [''go.mod''] None"]
    by (simp add: fsWith_def)
  from 1 2 3 4 5 show ?thesis by simp
qed





section \<open>Properties of the watch loop\<close>

lemma builds_append: "builds (a @ b) = builds a + builds b"
  by (simp add: builds_def)

lemma builds_checkUpd: "builds (snd (snd (checkUpd f s))) = builds (snd (snd s))"
  by (cases s) (auto simp: checkUpd_def builds_def split: option.splits)

lemma builds_fold_checkUpd: "builds (snd (snd (fold checkUpd xs s))) = builds (snd (snd s))"
  by (induction xs arbitrary: s) (simp_all add: builds_checkUpd)

lemma checkForChanges_out:
  "snd (snd (checkForChanges tree app)) =
     snd (snd (fold checkUpd (snd (visits (config app) ''.'' tree)) (fileStates app, False, [])))
     @ (case fst (visits (config app) ''.'' tree) of
          Err e \<Rightarrow> [Print (ScanFailed e)] | _ \<Rightarrow> [])"
  by (simp add: checkForChanges_fold split: prod.splits)

lemma checkForChanges_builds: "builds (snd (snd (checkForChanges tree app))) = 0"
proof -
  have 1: "builds (snd (snd (fold checkUpd (snd (visits (config app) ''.'' tree))
                 (fileStates app, False, [])))) = 0"
    by (simp add: builds_fold_checkUpd) (simp add: builds_def)
  have 2: "builds (case fst (visits (config app) ''.'' tree) of
          Err e \<Rightarrow> [Print (ScanFailed e)] | _ \<Rightarrow> []) = 0"
    by (simp add: builds_def split: ret.splits)
  show ?thesis by (simp only: checkForChanges_out builds_append 1 2)
qed

lemma checkForChanges_building:
  "building (fst (snd (checkForChanges tree app))) = building app"
  by (simp add: checkForChanges_fold split: prod.splits)

lemma stopProcess_builds: "builds (snd (stopProcess sf app)) = 0"
  by (cases "process app") (simp_all add: stopProcess_def builds_def)

lemma stopProcess_keeps:
  "building (fst (stopProcess sf app)) = building app"
  "config (fst (stopProcess sf app)) = config app"
  "fileStates (fst (stopProcess sf app)) = fileStates app"
  by (cases "process app"; simp add: stopProcess_def)+


lemma buildAndRun_building:
  "building (fst (buildAndRun env app)) = building app"
  by (cases "process app"; cases "startResult env")
     (simp_all add: buildAndRun_def stopProcess_def Let_def)

lemma watchFiles_ticks_pending:
  assumes "hasChanges w"
  shows "hasChanges (fst (watchFiles (tickInputs ts) w))
       \<and> debounce (fst (watchFiles (tickInputs ts) w)) = debounce w
       \<and> building (wapp (fst (watchFiles (tickInputs ts) w))) = building (wapp w)
       \<and> builds (snd (watchFiles (tickInputs ts) w)) = 0"
  using assms
proof (induction ts arbitrary: w)
  case Nil
  then show ?case by (simp add: tickInputs_def builds_def)
next
  case (Cons a ts)
  obtain t tree where a: "a = (t, tree)" by force
  define w' where "w' = w\<lparr>wapp := fst (snd (checkForChanges tree (wapp w))),
              hasChanges := hasChanges w \<or> fst (checkForChanges tree (wapp w)),
              debounce := (if fst (checkForChanges tree (wapp w)) \<and> \<not> hasChanges w
                           then Some (t + DebounceDelay (config (wapp w)))
                           else debounce w)\<rparr>"
  have step: "watchStep (Tick t tree) w = Some (w', snd (snd (checkForChanges tree (wapp w))))"
    unfolding w'_def by (rule watchStep_Tick)
  have h: "hasChanges w'" and d: "debounce w' = debounce w"
    and b: "wapp w' = fst (snd (checkForChanges tree (wapp w)))"
    using Cons.prems by (simp_all add: w'_def)
  note ih = Cons.IH[OF h]
  have run: "watchFiles (tickInputs (a # ts)) w =
          (fst (watchFiles (tickInputs ts) w'),
           snd (snd (checkForChanges tree (wapp w))) @ snd (watchFiles (tickInputs ts) w'))"
    unfolding a tickInputs_def using step
    by (simp del: watchStep.simps split: prod.splits)
  show ?case unfolding run using ih
    by (simp add: builds_append checkForChanges_builds checkForChanges_building d b)
qed

lemma watchFiles_append_ticks:
  "watchFiles (tickInputs ts @ rest) w =
     (fst (watchFiles rest (fst (watchFiles (tickInputs ts) w))),
      snd (watchFiles (tickInputs ts) w) @ snd (watchFiles rest (fst (watchFiles (tickInputs ts) w))))"
proof (induction ts arbitrary: w)
  case Nil
  then show ?case by (simp add: tickInputs_def)
next
  case (Cons a ts)
  obtain t tree where a: "a = (t, tree)" by force
  obtain w' out where step: "watchStep (Tick t tree) w = Some (w', out)"
    using watchStep_Tick by blast
  have 1: "watchFiles (tickInputs (a # ts) @ rest) w =
        (fst (watchFiles (tickInputs ts @ rest) w'), out @ snd (watchFiles (tickInputs ts @ rest) w'))"
    unfolding a tickInputs_def using step by (simp del: watchStep.simps split: prod.splits)
  have 2: "watchFiles (tickInputs (a # ts)) w =
        (fst (watchFiles (tickInputs ts) w'), out @ snd (watchFiles (tickInputs ts) w'))"
    unfolding a tickInputs_def using step by (simp del: watchStep.simps split: prod.splits)
  show ?case unfolding 1 2 using Cons.IH[of w'] by simp
qed



text \<open>
  Along every run of the loop the \<^verbatim>\<open>building\<close> flag is as it was at the start, and the
  timer is set exactly while \<^verbatim>\<open>hasChanges\<close> is.
\<close>

lemma watchStep_keeps:
  assumes "watchStep i w = Some (w', out)"
  shows "building (wapp w') = building (wapp w)"
    and "hasChanges w = (debounce w \<noteq> None) \<Longrightarrow> hasChanges w' = (debounce w' \<noteq> None)"
proof -
  show "building (wapp w') = building (wapp w)"
  proof (cases i)
    case StopChan
    then show ?thesis using assms by simp
  next
    case (Tick now tree)
    then show ?thesis using assms watchStep_Tick[of now tree w]
      by (auto simp del: watchStep.simps simp add: checkForChanges_building)
  next
    case (DebounceC env)
    then show ?thesis using assms buildAndRun_building[of env "wapp w"]
      by (auto split: if_splits prod.splits)
  qed
  show "hasChanges w = (debounce w \<noteq> None) \<Longrightarrow> hasChanges w' = (debounce w' \<noteq> None)"
  proof (cases i)
    case StopChan
    then show ?thesis using assms by simp
  next
    case (Tick now tree)
    assume "hasChanges w = (debounce w \<noteq> None)"
    then show ?thesis using Tick assms watchStep_Tick[of now tree w]
      by (auto simp del: watchStep.simps)
  next
    case (DebounceC env)
    then show ?thesis using assms by (auto split: if_splits prod.splits)
  qed
qed

lemma watchFiles_Cons:
  "watchStep i w = Some (w', out) \<Longrightarrow>
     watchFiles (i # rest) w = (fst (watchFiles rest w'), out @ snd (watchFiles rest w'))"
  "watchStep i w = None \<Longrightarrow> watchFiles (i # rest) w = (w, [])"
  by (simp_all del: watchStep.simps split: prod.splits)

lemma watchFiles_building:
  "building (wapp (fst (watchFiles inputs w))) = building (wapp w)"
proof (induction inputs arbitrary: w)
  case Nil
  show ?case by simp
next
  case (Cons i inputs)
  show ?case
  proof (cases "watchStep i w")
    case None
    then show ?thesis by (simp only: watchFiles_Cons(2) fst_conv)
  next
    case (Some r)
    obtain w' out where r: "r = (w', out)" by force
    have s: "watchStep i w = Some (w', out)" using Some r by simp
    show ?thesis
      using Cons.IH[of w'] watchStep_keeps(1)[OF s]
      by (simp only: watchFiles_Cons(1)[OF s] fst_conv)
  qed
qed

lemma watchFiles_timer_iff_pending:
  "hasChanges w = (debounce w \<noteq> None) \<Longrightarrow>
     hasChanges (fst (watchFiles inputs w)) = (debounce (fst (watchFiles inputs w)) \<noteq> None)"
proof (induction inputs arbitrary: w)
  case Nil
  then show ?case by simp
next
  case (Cons i inputs)
  show ?case
  proof (cases "watchStep i w")
    case None
    then show ?thesis using Cons.prems by (simp only: watchFiles_Cons(2) fst_conv)
  next
    case (Some r)
    obtain w' out where r: "r = (w', out)" by force
    have s: "watchStep i w = Some (w', out)" using Some r by simp
    have "hasChanges w' = (debounce w' \<noteq> None)"
      using watchStep_keeps(2)[OF s] Cons.prems by simp
    then show ?thesis
      using Cons.IH[of w'] by (simp only: watchFiles_Cons(1)[OF s] fst_conv)
  qed
qed

subsection \<open>The loop in time\<close>


















section \<open>Properties of the build-and-run cycle\<close>

lemma threadStep_alone:
  assumes "\<not> locked sh"
  shows "((\<lambda>c. threadStep env (fst c) (snd c)) ^^ 5) (AtLock, sh) =
           (Returned, sh\<lparr>sapp := fst (buildAndRun env (sapp sh)),
                          sout := sout sh @ snd (buildAndRun env (sapp sh))\<rparr>)"
  using assms
  by (cases "process (sapp sh)"; cases "startResult env"; cases "building (sapp sh)")
     (simp_all add: buildAndRun_def stopProcess_def Let_def eval_nat_numeral)

lemma threadStep_inv:
  assumes "locked sh = (inCS p \<or> inCS q)" "(inCS p \<and> inCS q) = False"
    and "building (sapp sh) = (pastCheck p \<or> pastCheck q)"
    and "builds (sout sh) = built p + built q"
    and "threadStep env p sh = (p', sh')"
  shows "locked sh' = (inCS p' \<or> inCS q) \<and> (inCS p' \<and> inCS q) = False
       \<and> building (sapp sh') = (pastCheck p' \<or> pastCheck q)
       \<and> builds (sout sh') = built p' + built q"
proof (cases p)
  case AtLock
  then show ?thesis using assms by (cases q) (auto split: if_splits)
next
  case AtCheck
  then show ?thesis using assms by (cases q) (auto split: if_splits)
next
  case AtStop
  then show ?thesis using assms stopProcess_builds[of "signalFails env" "sapp sh"]
      stopProcess_keeps(1)[of "signalFails env" "sapp sh"]
    by (cases q; cases "stopProcess (signalFails env) (sapp sh)") (auto simp: builds_append)
next
  case AtBuild
  then show ?thesis using assms
    by (cases q) (auto simp: Let_def builds_def split: if_splits)
next
  case AtStart
  then show ?thesis using assms
    by (cases q; cases "startResult env") (auto simp: Let_def builds_def)
next
  case Returned
  then show ?thesis using assms by auto
qed

lemma schedStep_inv: "mutexInv c \<Longrightarrow> mutexInv (schedStep e1 e2 b c)"
proof -
  assume inv: "mutexInv c"
  obtain p1 p2 sh where c: "c = (p1, p2, sh)" using prod_cases3 by blast
  show ?thesis
  proof (cases b)
    case False
    obtain p' sh' where s: "threadStep e1 p1 sh = (p', sh')" by force
    have "locked sh' = (inCS p' \<or> inCS p2) \<and> (inCS p' \<and> inCS p2) = False
       \<and> building (sapp sh') = (pastCheck p' \<or> pastCheck p2)
       \<and> builds (sout sh') = built p' + built p2"
      using inv s by (intro threadStep_inv[of sh p1 p2 e1]) (auto simp: mutexInv_def c)
    then show ?thesis using False s by (simp add: c mutexInv_def)
  next
    case True
    obtain p' sh' where s: "threadStep e2 p2 sh = (p', sh')" by force
    have "locked sh' = (inCS p' \<or> inCS p1) \<and> (inCS p' \<and> inCS p1) = False
       \<and> building (sapp sh') = (pastCheck p' \<or> pastCheck p1)
       \<and> builds (sout sh') = built p' + built p1"
      using inv s by (intro threadStep_inv[of sh p2 p1 e2]) (auto simp: mutexInv_def c)
    then show ?thesis using True s by (auto simp add: c mutexInv_def)
  qed
qed

lemma runSchedule_inv: "mutexInv c \<Longrightarrow> mutexInv (runSchedule e1 e2 sched c)"
  unfolding runSchedule_def
  by (induction sched arbitrary: c) (simp_all add: schedStep_inv)

lemma twoCallers_inv: "\<not> building app \<Longrightarrow> mutexInv (twoCallers app)"
  by (simp add: twoCallers_def mutexInv_def builds_def)

text \<open>
  Two goroutines that call \<^verbatim>\<open>buildAndRun\<close> on an application that is not building: under
  every schedule, once both calls have returned the build command has been executed
  twice. The mutex is held from \<^verbatim>\<open>Lock\<close> to the deferred \<^verbatim>\<open>Unlock\<close>, so the later caller
  waits, and when it gets the mutex \<^verbatim>\<open>building\<close> is false again.
\<close>

lemma two_callers_both_build:
  assumes "\<not> building app"
    and "runSchedule e1 e2 sched (twoCallers app) = (Returned, Returned, sh)"
  shows "builds (sout sh) = 2 \<and> \<not> building (sapp sh) \<and> \<not> locked sh"
  using runSchedule_inv[OF twoCallers_inv[OF assms(1)], of e1 e2 sched] assms(2)
  by (simp add: mutexInv_def)

lemma pastCheck_inCS: "pastCheck p \<Longrightarrow> inCS p"
  by (cases p) simp_all

lemma guard_never_taken:
  assumes "\<not> building app"
    and "runSchedule e1 e2 sched (twoCallers app) = (p1, p2, sh)"
    and "p1 = AtCheck \<or> p2 = AtCheck"
  shows "\<not> building (sapp sh)"
  using runSchedule_inv[OF twoCallers_inv[OF assms(1)], of e1 e2 sched] assms(2,3)
  by (auto simp add: mutexInv_def dest: pastCheck_inCS)

text \<open>
  Claim C2 on the code: the second caller arrives while the first is building. It does
  not return at once: after six steps the first caller has run the build command and
  the second still waits for the mutex. When it gets the mutex it finds \<^verbatim>\<open>building\<close>
  false, stops the process the first caller has just started, and builds and starts
  again. Two builds are executed, not one.
\<close>

theorem overlapping_callers_build_twice:
  "runSchedule okEnv okEnv2 overlapSchedule (twoCallers demoApp) =
     (Returned, Returned,
      \<lparr>sapp = demoApp\<lparr>process := Some 4712\<rparr>, locked = False,
       sout = [Print Building, RunBuild ''go build -o ./tmp/main .'', Print BuildSuccessful,
               Print Starting, StartRun ''./tmp/main'', Print (Started 4711),
               Print (Stopping 4711), Signal 4711, Wait 4711,
               Print Building, RunBuild ''go build -o ./tmp/main .'', Print BuildSuccessful,
               Print Starting, StartRun ''./tmp/main'', Print (Started 4712)]\<rparr>)
   \<and> builds (sout (snd (snd (runSchedule okEnv okEnv2 overlapSchedule (twoCallers demoApp))))) = 2
   \<and> runSchedule okEnv okEnv2 (take 6 overlapSchedule) (twoCallers demoApp) =
       (AtStart, AtLock,
        \<lparr>sapp = demoApp\<lparr>building := True\<rparr>, locked = True,
         sout = [Print Building, RunBuild ''go build -o ./tmp/main .'', Print BuildSuccessful]\<rparr>)"
  by (simp add: runSchedule_def overlapSchedule_def twoCallers_def okEnv_def okEnv2_def
        stopProcess_def demoApp_def newApp_def runWatcherConfig_def builds_def Let_def)

end
